theory Spec2Isabelle
  imports Main "HOL-Library.Sublist"
begin

section \<open>Strings\<close>

text \<open>
  A JavaScript string is modelled as a \<^typ>\<open>string\<close>, a list of \<^typ>\<open>char\<close>, each
  \<^typ>\<open>char\<close> standing for one code unit in the ASCII range. \<open>length\<close> is the \<open>.length\<close>
  property and \<open>@\<close> is \<open>+\<close> on strings. Code units outside ASCII (their case mappings and
  the Unicode white space beyond U+0020) are outside the model.
\<close>

definition is_space :: "char \<Rightarrow> bool" where
  \<comment> \<open>the class \<open>\s\<close> of a regular expression and the characters \<open>trim()\<close> strips:
      TAB, LF, VT, FF, CR and SPACE\<close>
  "is_space c \<longleftrightarrow> c \<in> set [CHR 0x09, CHR 0x0A, CHR 0x0B, CHR 0x0C, CHR 0x0D, CHR 0x20]"

definition is_terminator :: "char \<Rightarrow> bool" where
  \<comment> \<open>the class \<open>[.!?]\<close> of the sentence boundary\<close>
  "is_terminator c \<longleftrightarrow> c = CHR ''.'' \<or> c = CHR ''!'' \<or> c = CHR ''?''"

definition trimStart :: "string \<Rightarrow> string" where
  "trimStart s = dropWhile is_space s"

definition trimEnd :: "string \<Rightarrow> string" where
  "trimEnd s = rev (dropWhile is_space (rev s))"

definition trim :: "string \<Rightarrow> string" where
  \<comment> \<open>\<open>String.prototype.trim\<close>\<close>
  "trim s = trimEnd (trimStart s)"

fun split_on :: "char \<Rightarrow> string \<Rightarrow> string list" where
  \<comment> \<open>\<open>s.split(sep)\<close> for a separator of one character: one piece more than there are
      separators, so \<open>''''.split(' ')\<close> is \<open>['''']\<close>\<close>
  "split_on sep [] = [[]]"
| "split_on sep (c # cs) =
     (if c = sep then [] # split_on sep cs
      else (case split_on sep cs of [] \<Rightarrow> [[c]] | p # ps \<Rightarrow> (c # p) # ps))"

fun join :: "string \<Rightarrow> string list \<Rightarrow> string" where
  \<comment> \<open>\<open>xs.join(sep)\<close>\<close>
  "join sep [] = []"
| "join sep [x] = x"
| "join sep (x # y # ys) = x @ sep @ join sep (y # ys)"

definition slice_from :: "int \<Rightarrow> 'a list \<Rightarrow> 'a list" where
  \<comment> \<open>\<open>xs.slice(start)\<close>: a negative \<open>start\<close> counts from the end, and \<open>slice(-0)\<close> is
      \<open>slice(0)\<close>, the whole array\<close>
  "slice_from start xs =
     (if start < 0 then drop (length xs - nat (- start)) xs else drop (nat start) xs)"

function split_sentences_from :: "string \<Rightarrow> string \<Rightarrow> string list" where
  \<comment> \<open>\<open>text.split(/(?<=[.!?])\s+/)\<close>, scanning left to right with the piece read so far in
      \<open>cur\<close>. A match is a maximal run of white space whose preceding character is a
      terminator; that character is the last one of \<open>cur\<close>, since a piece is empty only at
      the start of the text or right after a match, where the next character is no white
      space.\<close>
  "split_sentences_from cur [] = [cur]"
| "split_sentences_from cur (c # cs) =
     (if is_space c \<and> cur \<noteq> [] \<and> is_terminator (last cur)
      then cur # split_sentences_from [] (dropWhile is_space cs)
      else split_sentences_from (cur @ [c]) cs)"
  by pat_completeness auto
termination
  by (relation "measure (\<lambda>(cur, cs). length cs)")
     (auto simp: length_dropWhile_le less_Suc_eq_le)

definition split_sentences :: "string \<Rightarrow> string list" where
  "split_sentences text = split_sentences_from [] text"

section \<open>The chunker\<close>

text \<open>
  \<open>chunkText(text, chunkSize = 3000, overlap = 500)\<close>. The loop over the sentences carries
  the array \<open>chunks\<close> and the buffer \<open>currentChunk\<close>; the two parameters are integers.
\<close>

fun chunk_loop :: "int \<Rightarrow> int \<Rightarrow> string list \<Rightarrow> string list \<times> string \<Rightarrow> string list \<times> string" where
  "chunk_loop chunkSize overlap [] (chunks, currentChunk) = (chunks, currentChunk)"
| "chunk_loop chunkSize overlap (sentence # rest) (chunks, currentChunk) =
     (if int (length (currentChunk @ sentence)) > chunkSize \<and> length currentChunk > 0
      then
        let words = split_on CHR '' '' currentChunk;
            overlapWords = slice_from (- (overlap div 10)) words
        in chunk_loop chunkSize overlap rest
             (chunks @ [trim currentChunk], join '' '' overlapWords @ '' '' @ sentence)
      else
        chunk_loop chunkSize overlap rest
          (chunks, currentChunk @ (if currentChunk \<noteq> [] then '' '' else []) @ sentence))"

definition chunkText :: "string \<Rightarrow> int \<Rightarrow> int \<Rightarrow> string list" where
  "chunkText text chunkSize overlap =
     (let (chunks, currentChunk) = chunk_loop chunkSize overlap (split_sentences text) ([], []);
          chunks = (if trim currentChunk \<noteq> [] then chunks @ [trim currentChunk] else chunks)
      in if length chunks > 0 then chunks else [text])"

section \<open>The relevance scorer\<close>

definition toLowerCase_char :: "char \<Rightarrow> char" where
  "toLowerCase_char c =
     (let n = (of_char c :: nat) in if 65 \<le> n \<and> n \<le> 90 then char_of (n + 32) else c)"

definition toLowerCase :: "string \<Rightarrow> string" where
  "toLowerCase s = map toLowerCase_char s"

function split_white_from :: "string \<Rightarrow> string \<Rightarrow> string list" where
  \<comment> \<open>\<open>s.split(/\s+/)\<close>: every maximal run of white space is one separator\<close>
  "split_white_from cur [] = [cur]"
| "split_white_from cur (c # cs) =
     (if is_space c then cur # split_white_from [] (dropWhile is_space cs)
      else split_white_from (cur @ [c]) cs)"
  by pat_completeness auto
termination
  by (relation "measure (\<lambda>(cur, cs). length cs)")
     (auto simp: length_dropWhile_le less_Suc_eq_le)

definition queryWords_of :: "string \<Rightarrow> string list" where
  \<comment> \<open>\<open>query.toLowerCase().split(/\s+/).filter(w => w.length > 2)\<close>\<close>
  "queryWords_of query = filter (\<lambda>w. length w > 2) (split_white_from [] (toLowerCase query))"

subsection \<open>Regular expressions\<close>

text \<open>
  \<open>new RegExp(word, 'gi')\<close> reads the query word as a pattern, and \<open>text.match(regex)\<close>
  returns the matches of the pattern in the text, or \<open>null\<close>. Both belong to the language,
  not to the repository; the model follows ECMAScript 2024: the syntax of section 22.2.1
  with the additions of Annex B.1.2 (the flags are \<open>g\<close> and \<open>i\<close>, so the pattern is read
  without the Unicode modes), the early errors of section 22.2.1.1, the semantics of
  section 22.2.2, and \<open>RegExp.prototype[@@match]\<close> with \<open>RegExpBuiltinExec\<close> (sections
  22.2.6.8 and 22.2.7.2). The constructor either returns a regular expression or raises
  \<open>SyntaxError\<close>. Characters are code units, written as natural numbers; as everywhere in
  this model, the text is in the ASCII range, so that the letters \<open>a\<close> to \<open>z\<close> are the
  only characters with another case. The limits an implementation puts on the size of a
  pattern and on the depth of the search are not modelled.
\<close>

datatype js_error = SyntaxError

definition decimal_digit :: "nat \<Rightarrow> bool" where
  "decimal_digit k \<longleftrightarrow> 48 \<le> k \<and> k \<le> 57"

definition octal_digit :: "nat \<Rightarrow> bool" where
  "octal_digit k \<longleftrightarrow> 48 \<le> k \<and> k \<le> 55"

definition hex_digit :: "nat \<Rightarrow> bool" where
  "hex_digit k \<longleftrightarrow> decimal_digit k \<or> (65 \<le> k \<and> k \<le> 70) \<or> (97 \<le> k \<and> k \<le> 102)"

definition hex_value :: "nat \<Rightarrow> nat" where
  "hex_value k = (if decimal_digit k then k - 48 else if k \<le> 70 then k - 55 else k - 87)"

definition ascii_letter :: "nat \<Rightarrow> bool" where
  "ascii_letter k \<longleftrightarrow> (65 \<le> k \<and> k \<le> 90) \<or> (97 \<le> k \<and> k \<le> 122)"

definition word_code :: "nat \<Rightarrow> bool" where
  \<comment> \<open>the class \<open>\w\<close>: letters, digits and \<open>_\<close>\<close>
  "word_code k \<longleftrightarrow> ascii_letter k \<or> decimal_digit k \<or> k = 95"

definition space_code :: "nat \<Rightarrow> bool" where
  \<comment> \<open>the class \<open>\s\<close>\<close>
  "space_code k \<longleftrightarrow> k < 256 \<and> is_space (char_of k)"

definition line_terminator :: "nat \<Rightarrow> bool" where
  "line_terminator k \<longleftrightarrow> k = 0x0A \<or> k = 0x0D \<or> k = 0x2028 \<or> k = 0x2029"

definition Canonicalize :: "nat \<Rightarrow> nat" where
  \<comment> \<open>flag \<open>i\<close> without the Unicode modes: the upper case of the character\<close>
  "Canonicalize k = (if 97 \<le> k \<and> k \<le> 122 then k - 32 else k)"

definition codes :: "string \<Rightarrow> nat list" where
  "codes s = map of_char s"

definition number :: "nat \<Rightarrow> nat list \<Rightarrow> nat" where
  \<comment> \<open>the value of a sequence of digits in the given base\<close>
  "number base ds = foldl (\<lambda>n d. base * n + hex_value d) 0 ds"

text \<open>
  A pattern that the constructor accepts is kept as a tree. \<open>Capture k\<close> is the \<open>k\<close>-th
  capturing group, counted from 1 by its opening parenthesis; \<open>BackRef k\<close> refers to it.
  \<open>Repeat a mn mx greedy parenIndex parenCount\<close> is the atom \<open>a\<close> under a quantifier from
  \<open>mn\<close> to \<open>mx\<close> repetitions (\<open>None\<close> for no upper bound), where \<open>parenCount\<close> capturing
  groups open inside \<open>a\<close> and \<open>parenIndex\<close> open to the left of it.
  \<open>Look ahead negative a\<close> is one of the four assertions \<open>(?=a)\<close>, \<open>(?!a)\<close>, \<open>(?<=a)\<close>
  and \<open>(?<!a)\<close>.
\<close>

datatype class_item =
    Single nat
  | Span nat nat
  | Digits | NonDigits | Spaces | NonSpaces | WordChars | NonWordChars

datatype node =
    Empty
  | Chr nat
  | Dot
  | ClassOf bool "class_item list"
  | Seq node node
  | Alt node node
  | Capture nat node
  | BackRef nat
  | Repeat node nat "nat option" bool nat nat
  | LineStart
  | LineEnd
  | WordBoundary bool
  | Look bool bool node

fun item_has :: "class_item \<Rightarrow> nat \<Rightarrow> bool" where
  "item_has (Single k) c \<longleftrightarrow> c = k"
| "item_has (Span lo hi) c \<longleftrightarrow> lo \<le> c \<and> c \<le> hi"
| "item_has Digits c \<longleftrightarrow> decimal_digit c"
| "item_has NonDigits c \<longleftrightarrow> \<not> decimal_digit c"
| "item_has Spaces c \<longleftrightarrow> space_code c"
| "item_has NonSpaces c \<longleftrightarrow> \<not> space_code c"
| "item_has WordChars c \<longleftrightarrow> word_code c"
| "item_has NonWordChars c \<longleftrightarrow> \<not> word_code c"

definition variants :: "nat \<Rightarrow> nat list" where
  \<comment> \<open>the characters that \<open>Canonicalize\<close> maps where it maps \<open>c\<close>\<close>
  "variants c =
     (if 65 \<le> c \<and> c \<le> 90 then [c, c + 32] else if 97 \<le> c \<and> c \<le> 122 then [c, c - 32] else [c])"

definition class_found :: "class_item list \<Rightarrow> nat \<Rightarrow> bool" where
  \<comment> \<open>some member of the class has the canonical form of \<open>c\<close>\<close>
  "class_found items c \<longleftrightarrow> list_ex (\<lambda>v. list_ex (\<lambda>it. item_has it v) items) (variants c)"

paragraph \<open>Quantifiers\<close>

definition braces :: "nat list \<Rightarrow> (nat \<times> nat option \<times> nat) option" where
  \<comment> \<open>after an opening brace: the bounds of \<open>{n}\<close>, \<open>{n,}\<close> or \<open>{n,m}\<close> and the number of
      characters read, or \<open>None\<close> when the brace does not open one of these forms\<close>
  "braces s =
     (let d1 = takeWhile decimal_digit s; r1 = drop (length d1) s in
      if d1 = [] then None
      else
        (case r1 of
           [] \<Rightarrow> None
         | c # r2 \<Rightarrow>
             if c = 125 then Some (number 10 d1, Some (number 10 d1), length d1 + 1)
             else if c = 44 then
               (let d2 = takeWhile decimal_digit r2; r3 = drop (length d2) r2 in
                case r3 of
                  [] \<Rightarrow> None
                | c' # r4 \<Rightarrow>
                    if c' = 125
                    then Some (number 10 d1, if d2 = [] then None else Some (number 10 d2),
                               length d1 + length d2 + 2)
                    else None)
             else None))"

definition lazy_mark ::
  "nat \<Rightarrow> nat option \<Rightarrow> nat \<Rightarrow> nat list \<Rightarrow> (nat \<times> nat option \<times> bool) option \<times> nat" where
  \<comment> \<open>a \<open>?\<close> after a quantifier makes it lazy\<close>
  "lazy_mark mn mx k r =
     (case r of
        [] \<Rightarrow> (Some (mn, mx, True), k)
      | c # r' \<Rightarrow> if c = 63 then (Some (mn, mx, False), Suc k) else (Some (mn, mx, True), k))"

definition quantifier ::
  "nat list \<Rightarrow> js_error + ((nat \<times> nat option \<times> bool) option \<times> nat)" where
  \<comment> \<open>the quantifier at the head of \<open>s\<close>, if there is one (\<open>*\<close>, \<open>+\<close>, \<open>?\<close> or braces, and
      the lazy mark), with the number of characters read. Bounds out of order are an
      error.\<close>
  "quantifier s =
     (case s of
        [] \<Rightarrow> Inr (None, 0)
      | c # r \<Rightarrow>
          if c = 42 then Inr (lazy_mark 0 None 1 r)
          else if c = 43 then Inr (lazy_mark 1 None 1 r)
          else if c = 63 then Inr (lazy_mark 0 (Some 1) 1 r)
          else if c = 123 then
            (case braces r of
               None \<Rightarrow> Inr (None, 0)
             | Some (mn, mx, k) \<Rightarrow>
                 if (case mx of None \<Rightarrow> False | Some m \<Rightarrow> m < mn) then Inl SyntaxError
                 else Inr (lazy_mark mn mx (Suc k) (drop k r)))
          else Inr (None, 0))"

paragraph \<open>Escapes\<close>

definition legacy_octal :: "nat list \<Rightarrow> nat \<times> nat" where
  \<comment> \<open>an octal escape: up to three octal digits when the first is at most 3, up to two
      otherwise\<close>
  "legacy_octal s =
     (let ds = takeWhile octal_digit (take (if hd s \<le> 51 then 3 else 2) s)
      in (number 8 ds, length ds))"

definition hex_escape :: "nat \<Rightarrow> nat list \<Rightarrow> (nat \<times> nat) option" where
  \<comment> \<open>exactly \<open>n\<close> hexadecimal digits\<close>
  "hex_escape n s =
     (if n \<le> length s \<and> list_all hex_digit (take n s) then Some (number 16 (take n s), n) else None)"

paragraph \<open>Group names\<close>

definition id_start :: "nat \<Rightarrow> bool" where
  \<comment> \<open>the characters that may begin an identifier: the letters, \<open>$\<close> and \<open>_\<close>; beyond
      U+00FF, where the model has no text, every code point but a surrogate is taken\<close>
  "id_start k \<longleftrightarrow>
     ascii_letter k \<or> k = 36 \<or> k = 95 \<or> k = 0xAA \<or> k = 0xB5 \<or> k = 0xBA \<or>
     (0xC0 \<le> k \<and> k \<le> 0xFF \<and> k \<noteq> 0xD7 \<and> k \<noteq> 0xF7) \<or>
     (0x100 \<le> k \<and> \<not> (0xD800 \<le> k \<and> k \<le> 0xDFFF))"

definition id_part :: "nat \<Rightarrow> bool" where
  "id_part k \<longleftrightarrow> id_start k \<or> decimal_digit k \<or> k = 0xB7"

definition name_escape :: "nat list \<Rightarrow> (nat \<times> nat) option" where
  \<comment> \<open>in a group name, after a backslash: \<open>u\<close> and four hexadecimal digits (two such
      escapes for a surrogate pair), or \<open>u{\<close>, hexadecimal digits and \<open>}\<close>; the code point
      and the number of characters read\<close>
  "name_escape s =
     (case s of
        [] \<Rightarrow> None
      | u # r \<Rightarrow>
          if u \<noteq> 117 then None
          else if r \<noteq> [] \<and> hd r = 123 then
            (let ds = takeWhile hex_digit (tl r); r' = drop (length ds) (tl r) in
             if ds \<noteq> [] \<and> r' \<noteq> [] \<and> hd r' = 125 \<and> number 16 ds \<le> 0x10FFFF
             then Some (number 16 ds, length ds + 3) else None)
          else
            (case hex_escape 4 r of
               None \<Rightarrow> None
             | Some (hi, k) \<Rightarrow>
                 (case (if 0xD800 \<le> hi \<and> hi \<le> 0xDBFF \<and> take 2 (drop 4 r) = [92, 117]
                        then hex_escape 4 (drop 6 r) else None) of
                    Some (lo, k') \<Rightarrow>
                      if 0xDC00 \<le> lo \<and> lo \<le> 0xDFFF
                      then Some (0x10000 + (hi - 0xD800) * 0x400 + (lo - 0xDC00), 11)
                      else Some (hi, 5)
                  | None \<Rightarrow> Some (hi, 5))))"

function name_chars :: "bool \<Rightarrow> nat list \<Rightarrow> (nat list \<times> nat) option" where
  \<comment> \<open>the characters of a name up to the closing \<open>>\<close>, and the number of characters read
      with it\<close>
  "name_chars first [] = None"
| "name_chars first (c # r) =
     (if c = 62 then (if first then None else Some ([], 1))
      else if c = 92 then
        (case name_escape r of
           None \<Rightarrow> None
         | Some (cp, k) \<Rightarrow>
             if (if first then id_start cp else id_part cp)
             then (case name_chars False (drop k r) of
                     None \<Rightarrow> None
                   | Some (n, j) \<Rightarrow> Some (cp # n, Suc (k + j)))
             else None)
      else if (if first then id_start c else id_part c)
      then (case name_chars False r of None \<Rightarrow> None | Some (n, j) \<Rightarrow> Some (c # n, Suc j))
      else None)"
  by pat_completeness auto
termination
  by (relation "measure (\<lambda>(first, s). length s)") auto

definition group_name :: "nat list \<Rightarrow> (nat list \<times> nat) option" where
  \<comment> \<open>a name between \<open><\<close> and \<open>>\<close>\<close>
  "group_name s =
     (case s of
        [] \<Rightarrow> None
      | c # r \<Rightarrow>
          if c = 60
          then (case name_chars True r of None \<Rightarrow> None | Some (n, k) \<Rightarrow> Some (n, Suc k))
          else None)"

datatype scan_mode = Outside | Outside_escaped | Inside | Inside_escaped

fun scan_groups :: "scan_mode \<Rightarrow> nat list \<Rightarrow> nat list option list" where
  \<comment> \<open>the capturing groups of the pattern in the order of their opening parentheses, each
      with its name if it has one. Their number decides whether \<open>\1\<close> is a back reference,
      and the presence of a name decides how \<open>\k\<close> is read, also to the left of the
      groups; so the pattern is scanned for them first. A parenthesis opens no group after
      a backslash or inside a class.\<close>
  "scan_groups md [] = []"
| "scan_groups md (c # s) =
     (case md of
        Outside_escaped \<Rightarrow> scan_groups Outside s
      | Inside_escaped \<Rightarrow> scan_groups Inside s
      | Inside \<Rightarrow>
          if c = 92 then scan_groups Inside_escaped s
          else if c = 93 then scan_groups Outside s
          else scan_groups Inside s
      | Outside \<Rightarrow>
          if c = 92 then scan_groups Outside_escaped s
          else if c = 91 then scan_groups Inside s
          else if c = 40 then
            (if take 1 s = [63] then
               (if take 2 s = [63, 60] \<and> take 3 s \<noteq> [63, 60, 61] \<and> take 3 s \<noteq> [63, 60, 33]
                then (case group_name (drop 1 s) of
                        None \<Rightarrow> scan_groups Outside s
                      | Some (n, k) \<Rightarrow> Some n # scan_groups Outside s)
                else scan_groups Outside s)
             else None # scan_groups Outside s)
          else scan_groups Outside s)"

definition name_index :: "nat list option list \<Rightarrow> nat list \<Rightarrow> nat option" where
  \<comment> \<open>the number of the group of the given name\<close>
  "name_index names n =
     (case filter (\<lambda>i. names ! i = Some n) [0..<length names] of [] \<Rightarrow> None | i # _ \<Rightarrow> Some (Suc i))"

definition named :: "nat list option list \<Rightarrow> bool" where
  "named names \<longleftrightarrow> list_ex (\<lambda>n. n \<noteq> None) names"

paragraph \<open>Classes\<close>

definition class_escape :: "nat list option list \<Rightarrow> nat list \<Rightarrow> js_error + (class_item \<times> nat)" where
  \<comment> \<open>an escape inside a class, after the backslash: the item and the number of
      characters read. \<open>\c\<close> before a letter, a digit or \<open>_\<close> is a control character, and is
      a backslash before anything else; \<open>\x\<close> and \<open>\u\<close> without their digits, and every
      character with no meaning of its own, stand for themselves, except \<open>k\<close> in a pattern
      with a named group.\<close>
  "class_escape names s =
     (case s of
        [] \<Rightarrow> Inl SyntaxError
      | d # r \<Rightarrow>
          if d = 98 then Inr (Single 8, 1)
          else if d = 100 then Inr (Digits, 1)
          else if d = 68 then Inr (NonDigits, 1)
          else if d = 115 then Inr (Spaces, 1)
          else if d = 83 then Inr (NonSpaces, 1)
          else if d = 119 then Inr (WordChars, 1)
          else if d = 87 then Inr (NonWordChars, 1)
          else if d = 102 then Inr (Single 12, 1)
          else if d = 110 then Inr (Single 10, 1)
          else if d = 114 then Inr (Single 13, 1)
          else if d = 116 then Inr (Single 9, 1)
          else if d = 118 then Inr (Single 11, 1)
          else if d = 99 then
            (case r of
               [] \<Rightarrow> Inr (Single 92, 0)
             | l # _ \<Rightarrow>
                 if ascii_letter l \<or> decimal_digit l \<or> l = 95 then Inr (Single (l mod 32), 2)
                 else Inr (Single 92, 0))
          else if octal_digit d then
            (let (v, k) = legacy_octal s in Inr (Single v, k))
          else if d = 120 then
            (case hex_escape 2 r of None \<Rightarrow> Inr (Single 120, 1) | Some (v, k) \<Rightarrow> Inr (Single v, Suc k))
          else if d = 117 then
            (case hex_escape 4 r of None \<Rightarrow> Inr (Single 117, 1) | Some (v, k) \<Rightarrow> Inr (Single v, Suc k))
          else if d = 107 \<and> named names then Inl SyntaxError
          else Inr (Single d, 1))"

definition class_atom :: "nat list option list \<Rightarrow> nat \<Rightarrow> nat list \<Rightarrow> js_error + (class_item \<times> nat)" where
  \<comment> \<open>the class atom that begins with \<open>c\<close>, and the number of characters read after \<open>c\<close>\<close>
  "class_atom names c s = (if c = 92 then class_escape names s else Inr (Single c, 0))"

definition range_of :: "class_item \<Rightarrow> class_item \<Rightarrow> class_item list option" where
  \<comment> \<open>the range between two class atoms: out of order it is an error; when one end is a
      class such as \<open>\d\<close>, the two ends and the dash are the members\<close>
  "range_of a b =
     (case a of
        Single lo \<Rightarrow>
          (case b of
             Single hi \<Rightarrow> if hi < lo then None else Some [Span lo hi]
           | _ \<Rightarrow> Some [a, b, Single 45])
      | _ \<Rightarrow> Some [a, b, Single 45])"

definition class_step ::
  "nat list option list \<Rightarrow> nat \<Rightarrow> nat list \<Rightarrow> js_error + (class_item list \<times> nat)" where
  \<comment> \<open>the class atom or the range that begins with \<open>c\<close>, and the number of characters read
      after \<open>c\<close>. A dash makes a range unless it is the last character of the class.\<close>
  "class_step names c s =
     (case class_atom names c s of
        Inl e \<Rightarrow> Inl e
      | Inr (a, k) \<Rightarrow>
          let r = drop k s in
          if take 1 r = [45] \<and> drop 1 r \<noteq> [] \<and> take 1 (drop 1 r) \<noteq> [93] then
            (case class_atom names (hd (drop 1 r)) (drop 2 r) of
               Inl e \<Rightarrow> Inl e
             | Inr (b, j) \<Rightarrow>
                 (case range_of a b of
                    None \<Rightarrow> Inl SyntaxError
                  | Some items \<Rightarrow> Inr (items, k + j + 2)))
          else Inr ([a], k))"

function class_items ::
  "nat list option list \<Rightarrow> class_item list \<Rightarrow> nat \<Rightarrow> nat list \<Rightarrow> js_error + (class_item list \<times> nat)" where
  \<comment> \<open>the items up to the closing bracket, and the number of characters read with it; a
      class that is not closed is an error\<close>
  "class_items names acc n [] = Inl SyntaxError"
| "class_items names acc n (c # s) =
     (if c = 93 then Inr (acc, Suc n)
      else
        (case class_step names c s of
           Inl e \<Rightarrow> Inl e
         | Inr (items, k) \<Rightarrow> class_items names (acc @ items) (Suc (n + k)) (drop k s)))"
  by pat_completeness auto
termination
  by (relation "measure (\<lambda>(names, acc, n, s). length s)") auto

definition character_class :: "nat list option list \<Rightarrow> nat list \<Rightarrow> js_error + (node \<times> nat)" where
  \<comment> \<open>the class after its opening bracket; \<open>^\<close> at its head inverts it\<close>
  "character_class names s =
     (if take 1 s = [94]
      then (case class_items names [] 1 (drop 1 s) of
              Inl e \<Rightarrow> Inl e | Inr (items, k) \<Rightarrow> Inr (ClassOf True items, k))
      else (case class_items names [] 0 s of
              Inl e \<Rightarrow> Inl e | Inr (items, k) \<Rightarrow> Inr (ClassOf False items, k)))"

paragraph \<open>Atoms\<close>

definition atom_escape :: "nat list option list \<Rightarrow> nat list \<Rightarrow> js_error + (node \<times> bool \<times> nat)" where
  \<comment> \<open>an escape outside a class, after the backslash: the node, whether a quantifier may
      follow it, and the number of characters read. A decimal number is a back reference
      when the pattern has that many groups, and is read as an octal escape or as the
      digit itself otherwise; \<open>\k\<close> is a named back reference when the pattern has a named
      group.\<close>
  "atom_escape names s =
     (case s of
        [] \<Rightarrow> Inl SyntaxError
      | d # r \<Rightarrow>
          if d = 98 then Inr (WordBoundary True, False, 1)
          else if d = 66 then Inr (WordBoundary False, False, 1)
          else if decimal_digit d \<and> d \<noteq> 48 \<and>
                  number 10 (takeWhile decimal_digit s) \<le> length names
          then Inr (BackRef (number 10 (takeWhile decimal_digit s)), True,
                    length (takeWhile decimal_digit s))
          else if d = 107 \<and> named names then
            (case group_name r of
               None \<Rightarrow> Inl SyntaxError
             | Some (n, k) \<Rightarrow>
                 (case name_index names n of
                    None \<Rightarrow> Inl SyntaxError
                  | Some i \<Rightarrow> Inr (BackRef i, True, Suc k)))
          else if d = 99 then
            (if r \<noteq> [] \<and> ascii_letter (hd r) then Inr (Chr (hd r mod 32), True, 2)
             else Inr (Chr 92, True, 0))
          else
            (case class_escape names s of
               Inl e \<Rightarrow> Inl e
             | Inr (item, k) \<Rightarrow>
                 (case item of
                    Single v \<Rightarrow> Inr (Chr v, True, k)
                  | _ \<Rightarrow> Inr (ClassOf False [item], True, k))))"

definition atom_at :: "nat list option list \<Rightarrow> nat \<Rightarrow> nat list \<Rightarrow> js_error + (node \<times> bool \<times> nat)" where
  \<comment> \<open>the atom or assertion that begins with \<open>c\<close>, a character other than a parenthesis
      and \<open>|\<close>: the node, whether a quantifier may follow it, and the number of characters
      read after \<open>c\<close>. A quantifier with nothing to repeat is an error, as is a brace
      that opens a well-formed quantifier there; every other brace and \<open>]\<close> stand for
      themselves.\<close>
  "atom_at names c s =
     (if c = 42 \<or> c = 43 \<or> c = 63 then Inl SyntaxError
      else if c = 123 then (if braces s \<noteq> None then Inl SyntaxError else Inr (Chr 123, True, 0))
      else if c = 94 then Inr (LineStart, False, 0)
      else if c = 36 then Inr (LineEnd, False, 0)
      else if c = 46 then Inr (Dot, True, 0)
      else if c = 91 then
        (case character_class names s of Inl e \<Rightarrow> Inl e | Inr (nd, k) \<Rightarrow> Inr (nd, True, k))
      else if c = 92 then atom_escape names s
      else Inr (Chr c, True, 0))"

paragraph \<open>Groups and alternatives\<close>

text \<open>
  The pattern is read from left to right with a stack of the groups that are open. A
  frame holds the kind of its group, the number of capturing groups opened before it,
  the alternatives that are complete and the terms of the alternative being read.
\<close>

datatype group_kind = Top | Capturing nat | NonCapturing | Lookaround bool bool

type_synonym frame = "group_kind \<times> nat \<times> node list \<times> node list"

fun seq_of :: "node list \<Rightarrow> node" where
  "seq_of [] = Empty"
| "seq_of [t] = t"
| "seq_of (t # ts) = Seq t (seq_of ts)"

fun alt_of :: "node list \<Rightarrow> node" where
  "alt_of [] = Empty"
| "alt_of [a] = a"
| "alt_of (a # as) = Alt a (alt_of as)"

definition group_open :: "nat list \<Rightarrow> js_error + (group_kind option \<times> nat)" where
  \<comment> \<open>what follows an opening parenthesis: the kind of a group that does not capture, or
      \<open>None\<close> for a capturing group, and the number of characters read\<close>
  "group_open s =
     (if take 1 s = [63] then
        (if take 2 s = [63, 58] then Inr (Some NonCapturing, 2)
         else if take 2 s = [63, 61] then Inr (Some (Lookaround True False), 2)
         else if take 2 s = [63, 33] then Inr (Some (Lookaround True True), 2)
         else if take 3 s = [63, 60, 61] then Inr (Some (Lookaround False False), 3)
         else if take 3 s = [63, 60, 33] then Inr (Some (Lookaround False True), 3)
         else (case group_name (drop 1 s) of
                 None \<Rightarrow> Inl SyntaxError
               | Some (n, k) \<Rightarrow> Inr (None, Suc k)))
      else Inr (None, 0))"

definition add_term :: "node \<Rightarrow> frame \<Rightarrow> frame" where
  "add_term nd fr = (case fr of (kind, parenIndex, alts, terms) \<Rightarrow> (kind, parenIndex, alts, terms @ [nd]))"

definition attach ::
  "frame list \<Rightarrow> frame \<Rightarrow> nat \<Rightarrow> node \<Rightarrow> bool \<Rightarrow> nat \<Rightarrow> nat \<Rightarrow> nat list
     \<Rightarrow> js_error + (frame list \<times> frame \<times> nat \<times> nat)" where
  \<comment> \<open>the term made of the atom \<open>nd\<close> and the quantifier at the head of \<open>s\<close>, if there is
      one, added to the frame; \<open>k\<close> characters are read already, \<open>parenIndex\<close> capturing groups
      open to the left of the atom and \<open>ng\<close> to the left of \<open>s\<close>\<close>
  "attach stack fr ng nd quantifiable parenIndex k s =
     (if quantifiable then
        (case quantifier s of
           Inl e \<Rightarrow> Inl e
         | Inr (q, j) \<Rightarrow>
             (case q of
                None \<Rightarrow> Inr (stack, add_term nd fr, ng, k)
              | Some (mn, mx, greedy) \<Rightarrow>
                  Inr (stack, add_term (Repeat nd mn mx greedy parenIndex (ng - parenIndex)) fr, ng, k + j)))
      else Inr (stack, add_term nd fr, ng, k))"

definition parse_step ::
  "nat list option list \<Rightarrow> frame list \<Rightarrow> frame \<Rightarrow> nat \<Rightarrow> nat \<Rightarrow> nat list
     \<Rightarrow> js_error + (frame list \<times> frame \<times> nat \<times> nat)" where
  \<comment> \<open>one step of the reader at the character \<open>c\<close>: the new stack of open groups, the new
      frame, the number of capturing groups opened so far, and the number of characters
      read after \<open>c\<close>. A closing parenthesis with no group open is an error. The
      assertions \<open>(?=a)\<close> and \<open>(?!a)\<close> may be quantified, \<open>(?<=a)\<close> and \<open>(?<!a)\<close> may not.\<close>
  "parse_step names stack fr ng c s =
     (case fr of (kind, parenIndex, alts, terms) \<Rightarrow>
        if c = 124 then Inr (stack, (kind, parenIndex, alts @ [seq_of terms], []), ng, 0)
        else if c = 40 then
          (case group_open s of
             Inl e \<Rightarrow> Inl e
           | Inr (spec, k) \<Rightarrow>
               (case spec of
                  None \<Rightarrow> Inr (fr # stack, (Capturing (Suc ng), ng, [], []), Suc ng, k)
                | Some kind' \<Rightarrow> Inr (fr # stack, (kind', ng, [], []), ng, k)))
        else if c = 41 then
          (case stack of
             [] \<Rightarrow> Inl SyntaxError
           | parent # rest \<Rightarrow>
               let body = alt_of (alts @ [seq_of terms]) in
               (case kind of
                  Top \<Rightarrow> Inl SyntaxError
                | Capturing i \<Rightarrow> attach rest parent ng (Capture i body) True parenIndex 0 s
                | NonCapturing \<Rightarrow> attach rest parent ng body True parenIndex 0 s
                | Lookaround ahead neg \<Rightarrow> attach rest parent ng (Look ahead neg body) ahead parenIndex 0 s))
        else
          (case atom_at names c s of
             Inl e \<Rightarrow> Inl e
           | Inr (nd, quantifiable, k) \<Rightarrow> attach stack fr ng nd quantifiable ng k (drop k s)))"

function parse ::
  "nat list option list \<Rightarrow> frame list \<Rightarrow> frame \<Rightarrow> nat \<Rightarrow> nat list \<Rightarrow> js_error + node" where
  \<comment> \<open>the pattern from here to its end; a group still open at the end is an error\<close>
  "parse names stack fr ng [] =
     (case fr of (kind, parenIndex, alts, terms) \<Rightarrow>
        if stack = [] then Inr (alt_of (alts @ [seq_of terms])) else Inl SyntaxError)"
| "parse names stack fr ng (c # s) =
     (case parse_step names stack fr ng c s of
        Inl e \<Rightarrow> Inl e
      | Inr (stack', fr', ng', k) \<Rightarrow> parse names stack' fr' ng' (drop k s))"
  by pat_completeness auto
termination
  by (relation "measure (\<lambda>(names, stack, fr, ng, s). length s)") auto

definition RegExp_gi :: "string \<Rightarrow> js_error + (node \<times> nat)" where
  \<comment> \<open>\<open>new RegExp(word, 'gi')\<close>: the pattern and the number of its capturing groups, or
      the error raised. Two groups of one name are an error.\<close>
  "RegExp_gi word =
     (let p = codes word; names = scan_groups Outside p in
      if \<not> distinct (filter (\<lambda>n. n \<noteq> None) names) then Inl SyntaxError
      else
        (case parse names [] (Top, 0, [], []) 0 p of
           Inl e \<Rightarrow> Inl e
         | Inr nd \<Rightarrow> Inr (nd, length names)))"

paragraph \<open>Matching\<close>

text \<open>
  A state of the search is the index reached in the text and the ranges of the capturing
  groups, undefined at first. The matcher of a pattern maps a state to the states in which
  a match of the pattern started there can end, in the order in which the backtracking
  search of the language tries them; so the search with a continuation succeeds with
  the first of these states on which the continuation succeeds. Inside \<open>(?<=a)\<close> and
  \<open>(?<!a)\<close> the text is read backward.
\<close>

type_synonym captures = "(nat \<times> nat) option list"

type_synonym state = "nat \<times> captures"

definition CharacterSetMatcher :: "(nat \<Rightarrow> bool) \<Rightarrow> bool \<Rightarrow> string \<Rightarrow> state \<Rightarrow> state list" where
  \<comment> \<open>one character of the set, forward or backward\<close>
  "CharacterSetMatcher found forward input x =
     (let e = fst x in
      if forward
      then (if e < length input \<and> found (of_char (input ! e)) then [(Suc e, snd x)] else [])
      else (if 0 < e \<and> e \<le> length input \<and> found (of_char (input ! (e - 1)))
            then [(e - 1, snd x)] else []))"

definition IsWordChar :: "string \<Rightarrow> int \<Rightarrow> bool" where
  "IsWordChar input e \<longleftrightarrow> 0 \<le> e \<and> nat e < length input \<and> word_code (of_char (input ! nat e))"

definition same_text :: "string \<Rightarrow> nat \<Rightarrow> nat \<Rightarrow> nat \<Rightarrow> bool" where
  \<comment> \<open>the \<open>len\<close> characters at \<open>a\<close> and those at \<open>b\<close> are the same but for their case\<close>
  "same_text input a b len \<longleftrightarrow>
     map (\<lambda>c. Canonicalize (of_char c)) (take len (drop a input)) =
     map (\<lambda>c. Canonicalize (of_char c)) (take len (drop b input))"

definition BackreferenceMatcher :: "nat \<Rightarrow> bool \<Rightarrow> string \<Rightarrow> state \<Rightarrow> state list" where
  \<comment> \<open>the text of group \<open>k\<close> once more; a group that is undefined matches the empty text\<close>
  "BackreferenceMatcher k forward input x =
     (case (if 0 < k \<and> k \<le> length (snd x) then snd x ! (k - 1) else None) of
        None \<Rightarrow> [x]
      | Some (rs, re) \<Rightarrow>
          let len = re - rs; e = fst x in
          if forward
          then (if e + len \<le> length input \<and> same_text input rs e len then [(e + len, snd x)] else [])
          else (if len \<le> e \<and> same_text input rs (e - len) len then [(e - len, snd x)] else []))"

definition clear_captures :: "nat \<Rightarrow> nat \<Rightarrow> captures \<Rightarrow> captures" where
  \<comment> \<open>the groups inside a repeated atom are undefined at the start of each repetition\<close>
  "clear_captures parenIndex parenCount cap =
     map (\<lambda>i. if parenIndex \<le> i \<and> i < parenIndex + parenCount then None else cap ! i) [0..<length cap]"

definition moved :: "bool \<Rightarrow> string \<Rightarrow> state \<Rightarrow> state \<Rightarrow> bool" where
  \<comment> \<open>the state \<open>y\<close> is further in the text than \<open>x\<close>. A matcher never ends before the
      index where it started, so this is the test of the language that the index has
      changed.\<close>
  "moved forward input x y \<longleftrightarrow>
     (if forward then fst x < fst y \<and> fst y \<le> length input else fst y < fst x)"

fun weight :: "node \<Rightarrow> nat" where
  "weight (Seq a b) = Suc (weight a + weight b)"
| "weight (Alt a b) = Suc (weight a + weight b)"
| "weight (Capture k a) = Suc (weight a)"
| "weight (Repeat a mn mx greedy parenIndex parenCount) = Suc (weight a)"
| "weight (Look ahead neg a) = Suc (weight a)"
| "weight nd = 0"

fun least :: "node \<Rightarrow> nat" where
  "least (Repeat a mn mx greedy parenIndex parenCount) = mn"
| "least nd = 0"

function matcher :: "node \<Rightarrow> bool \<Rightarrow> string \<Rightarrow> state \<Rightarrow> state list" where
  \<comment> \<open>A repetition without a lower bound that has matched the empty text is given up
      (the step of \<open>RepeatMatcher\<close> that keeps the search finite); a greedy quantifier
      tries one more repetition before it tries to stop, a lazy one after. An assertion
      keeps the index, and a positive one keeps the groups of the first match of its
      pattern.\<close>
  "matcher Empty forward input x = [x]"
| "matcher (Chr k) forward input x =
     CharacterSetMatcher (\<lambda>c. Canonicalize c = Canonicalize k) forward input x"
| "matcher Dot forward input x = CharacterSetMatcher (\<lambda>c. \<not> line_terminator c) forward input x"
| "matcher (ClassOf invert items) forward input x =
     CharacterSetMatcher (\<lambda>c. class_found items c \<noteq> invert) forward input x"
| "matcher (Seq a b) forward input x =
     (if forward
      then concat (map (matcher b forward input) (matcher a forward input x))
      else concat (map (matcher a forward input) (matcher b forward input x)))"
| "matcher (Alt a b) forward input x = matcher a forward input x @ matcher b forward input x"
| "matcher (Capture k a) forward input x =
     map (\<lambda>y. (fst y, (snd y)[k - 1 := Some (if forward then (fst x, fst y) else (fst y, fst x))]))
       (matcher a forward input x)"
| "matcher (BackRef k) forward input x = BackreferenceMatcher k forward input x"
| "matcher (Repeat a mn mx greedy parenIndex parenCount) forward input x =
     (if mx = Some 0 then [x]
      else
        let again =
              concat (map (\<lambda>y. if mn = 0 \<and> \<not> moved forward input x y then []
                                 else matcher (Repeat a (mn - 1) (map_option (\<lambda>m. m - 1) mx) greedy parenIndex parenCount)
                                        forward input y)
                        (matcher a forward input (fst x, clear_captures parenIndex parenCount (snd x))))
        in if mn \<noteq> 0 then again else if greedy then again @ [x] else x # again)"
| "matcher LineStart forward input x = (if fst x = 0 then [x] else [])"
| "matcher LineEnd forward input x = (if fst x = length input then [x] else [])"
| "matcher (WordBoundary positive) forward input x =
     (if (IsWordChar input (int (fst x) - 1) \<noteq> IsWordChar input (int (fst x))) = positive
      then [x] else [])"
| "matcher (Look ahead neg a) forward input x =
     (case matcher a ahead input x of
        [] \<Rightarrow> (if neg then [x] else [])
      | y # ys \<Rightarrow> (if neg then [] else [(fst x, snd y)]))"
  by pat_completeness auto
termination
  by (relation "inv_image (less_than <*lex*> less_than <*lex*> less_than)
        (\<lambda>(nd, forward, input, x).
           (weight nd, least nd, if forward then Suc (length input) - fst x else fst x))")
     (auto simp: moved_def)

function count_from :: "node \<Rightarrow> nat \<Rightarrow> string \<Rightarrow> nat \<Rightarrow> nat" where
  \<comment> \<open>the loop of \<open>match\<close> under flag \<open>g\<close>, with \<open>lastIndex\<close> at \<open>i\<close>: the next match is
      the first one of the leftmost index from \<open>i\<close> on where the pattern matches, and
      \<open>lastIndex\<close> becomes its end, one further after an empty match; the loop ends when
      no index up to the length of the text is left\<close>
  "count_from nd ncap input i =
     (if length input < i then 0
      else
        (case matcher nd True input (i, replicate ncap None) of
           [] \<Rightarrow> count_from nd ncap input (Suc i)
         | y # ys \<Rightarrow> Suc (count_from nd ncap input (if fst y \<le> i then Suc i else fst y))))"
  by pat_completeness auto
termination
  by (relation "measure (\<lambda>(nd, ncap, input, i). Suc (length input) - i)") auto

definition count_matches :: "node \<times> nat \<Rightarrow> string \<Rightarrow> nat" where
  \<comment> \<open>the length of \<open>text.match(regex)\<close>, 0 for \<open>null\<close>\<close>
  "count_matches regex input = count_from (fst regex) (snd regex) input 0"


subsection \<open>The score of a chunk\<close>

fun string_includes :: "string \<Rightarrow> string \<Rightarrow> bool" where
  \<comment> \<open>\<open>text.includes(phrase)\<close>\<close>
  "string_includes [] phrase \<longleftrightarrow> phrase = []"
| "string_includes (c # cs) phrase \<longleftrightarrow> prefix phrase (c # cs) \<or> string_includes cs phrase"

fun count_words :: "string \<Rightarrow> string list \<Rightarrow> int \<Rightarrow> js_error + int" where
  \<comment> \<open>the loop over the query words, with the running score\<close>
  "count_words text [] score = Inr score"
| "count_words text (word # rest) score =
     (case RegExp_gi word of
        Inl e \<Rightarrow> Inl e
      | Inr regex \<Rightarrow> count_words text rest (score + int (count_matches regex text)))"

definition calculateRelevance :: "string \<Rightarrow> string list \<Rightarrow> js_error + int" where
  "calculateRelevance text queryWords =
     (case count_words text queryWords 0 of
        Inl e \<Rightarrow> Inl e
      | Inr score \<Rightarrow>
          let phrase = join '' '' queryWords
          in Inr (if string_includes text phrase then score + int (length queryWords) * 2 else score))"

section \<open>The document store\<close>

record file_ref =
  fileName :: string

record file_content = file_ref +
  content :: string

record document = file_content +
  chunks :: "string list"
  uploadedAt :: string

record search_result = file_ref +
  chunk :: string
  score :: int

record add_result = file_ref +
  success :: bool
  chunksCount :: nat
  totalDocuments :: nat

text \<open>
  \<open>this.documents\<close> is a \<open>Map\<close> from chat ids to arrays of documents. Every method takes the
  store; a method that assigns to it returns the store it leaves.
\<close>

type_synonym 'u store = "'u \<rightharpoonup> document list"

fun findIndex :: "('a \<Rightarrow> bool) \<Rightarrow> 'a list \<Rightarrow> int" where
  \<comment> \<open>\<open>xs.findIndex(p)\<close>: the first index whose element satisfies \<open>p\<close>, or \<open>-1\<close>\<close>
  "findIndex p [] = - 1"
| "findIndex p (x # xs) =
     (if p x then 0 else (let i = findIndex p xs in if i < 0 then - 1 else i + 1))"

definition getDocuments :: "'u store \<Rightarrow> 'u \<Rightarrow> document list" where
  "getDocuments documents chatId = (case documents chatId of None \<Rightarrow> [] | Some docs \<Rightarrow> docs)"

definition getDocumentCount :: "'u store \<Rightarrow> 'u \<Rightarrow> nat" where
  "getDocumentCount documents chatId =
     (case documents chatId of None \<Rightarrow> 0 | Some docs \<Rightarrow> length docs)"

definition getDocumentNames :: "'u store \<Rightarrow> 'u \<Rightarrow> string list" where
  "getDocumentNames documents chatId =
     map fileName (case documents chatId of None \<Rightarrow> [] | Some docs \<Rightarrow> docs)"

definition getAllContent :: "'u store \<Rightarrow> 'u \<Rightarrow> file_content list" where
  "getAllContent documents chatId =
     map (\<lambda>d. \<lparr>fileName = fileName d, content = content d\<rparr>)
       (case documents chatId of None \<Rightarrow> [] | Some docs \<Rightarrow> docs)"

definition addDocument ::
  "'u store \<Rightarrow> 'u \<Rightarrow> string \<Rightarrow> string \<Rightarrow> string \<Rightarrow> add_result \<times> 'u store" where
  \<comment> \<open>\<open>now\<close> is the value of \<open>new Date().toISOString()\<close> at the call. A chat id the map
      does not hold is first given the empty array.\<close>
  "addDocument documents chatId fileName' content' now =
     (let userDocs = (case documents chatId of None \<Rightarrow> [] | Some docs \<Rightarrow> docs);
          chunks' = chunkText content' 3000 500;
          doc = \<lparr>fileName = fileName', content = content', chunks = chunks', uploadedAt = now\<rparr>;
          existingIndex = findIndex (\<lambda>d. fileName d = fileName') userDocs;
          userDocs = (if existingIndex \<ge> 0 then userDocs[nat existingIndex := doc]
                      else userDocs @ [doc])
      in (\<lparr>fileName = fileName', success = True, chunksCount = length chunks',
            totalDocuments = length userDocs\<rparr>,
          documents(chatId \<mapsto> userDocs)))"

definition deleteDocument :: "'u store \<Rightarrow> 'u \<Rightarrow> string \<Rightarrow> bool \<times> 'u store" where
  \<comment> \<open>\<open>userDocs.splice(index, 1)\<close> removes the element at \<open>index\<close>\<close>
  "deleteDocument documents chatId fileName' =
     (case documents chatId of
        None \<Rightarrow> (False, documents)
      | Some userDocs \<Rightarrow>
          let index = findIndex (\<lambda>d. fileName d = fileName') userDocs
          in if index \<ge> 0
             then (True, documents(chatId \<mapsto>
                     take (nat index) userDocs @ drop (Suc (nat index)) userDocs))
             else (False, documents))"

definition clearDocuments :: "'u store \<Rightarrow> 'u \<Rightarrow> bool \<times> 'u store" where
  "clearDocuments documents chatId = (True, documents(chatId := None))"

fun insert_sorted :: "('a \<Rightarrow> 'a \<Rightarrow> int) \<Rightarrow> 'a \<Rightarrow> 'a list \<Rightarrow> 'a list" where
  "insert_sorted compareFn x [] = [x]"
| "insert_sorted compareFn x (y # ys) =
     (if compareFn x y \<le> 0 then x # y # ys else y # insert_sorted compareFn x ys)"

definition array_sort :: "('a \<Rightarrow> 'a \<Rightarrow> int) \<Rightarrow> 'a list \<Rightarrow> 'a list" where
  \<comment> \<open>\<open>xs.sort(compareFn)\<close>. The sort of the language is stable, so for a comparator
      that orders by a number its result is the one of every stable sort; the model
      inserts from the right, which keeps equal elements in their order.\<close>
  "array_sort compareFn xs = foldr (insert_sorted compareFn) xs []"

fun search_chunks ::
  "string list \<Rightarrow> string \<Rightarrow> string list \<Rightarrow> search_result list
     \<Rightarrow> js_error + search_result list" where
  \<comment> \<open>the inner loop, over the chunks of the document named \<open>name\<close>\<close>
  "search_chunks queryWords name [] results = Inr results"
| "search_chunks queryWords name (chunk' # rest) results =
     (let chunkLower = toLowerCase chunk' in
      case calculateRelevance chunkLower queryWords of
        Inl e \<Rightarrow> Inl e
      | Inr relevanceScore \<Rightarrow>
          search_chunks queryWords name rest
            (if relevanceScore > 0
             then results @ [\<lparr>fileName = name, chunk = chunk', score = relevanceScore\<rparr>]
             else results))"

fun search_docs ::
  "string list \<Rightarrow> document list \<Rightarrow> search_result list \<Rightarrow> js_error + search_result list" where
  \<comment> \<open>the outer loop, over the documents\<close>
  "search_docs queryWords [] results = Inr results"
| "search_docs queryWords (doc # rest) results =
     (case search_chunks queryWords (fileName doc) (chunks doc) results of
        Inl e \<Rightarrow> Inl e
      | Inr results' \<Rightarrow> search_docs queryWords rest results')"

definition searchDocuments :: "'u store \<Rightarrow> 'u \<Rightarrow> string \<Rightarrow> js_error + search_result list" where
  "searchDocuments documents chatId query =
     (let docs = (case documents chatId of None \<Rightarrow> [] | Some docs \<Rightarrow> docs) in
      if length docs = 0 then Inr []
      else
        case search_docs (queryWords_of query) docs [] of
          Inl e \<Rightarrow> Inl e
        | Inr results \<Rightarrow> Inr (take 10 (array_sort (\<lambda>a b. score b - score a) results)))"

text \<open>
  The calls of the store as values, and the store each call leaves. The five reading
  methods assign to nothing.
\<close>

datatype 'u operation =
    AddDocument 'u string string string
  | DeleteDocument 'u string
  | ClearDocuments 'u
  | GetDocuments 'u
  | GetDocumentCount 'u
  | GetDocumentNames 'u
  | SearchDocuments 'u string
  | GetAllContent 'u

fun store_after :: "'u operation \<Rightarrow> 'u store \<Rightarrow> 'u store" where
  "store_after (AddDocument chatId name text now) documents =
     snd (addDocument documents chatId name text now)"
| "store_after (DeleteDocument chatId name) documents = snd (deleteDocument documents chatId name)"
| "store_after (ClearDocuments chatId) documents = snd (clearDocuments documents chatId)"
| "store_after (GetDocuments chatId) documents = documents"
| "store_after (GetDocumentCount chatId) documents = documents"
| "store_after (GetDocumentNames chatId) documents = documents"
| "store_after (SearchDocuments chatId query) documents = documents"
| "store_after (GetAllContent chatId) documents = documents"

fun target :: "'u operation \<Rightarrow> 'u" where
  "target (AddDocument chatId name text now) = chatId"
| "target (DeleteDocument chatId name) = chatId"
| "target (ClearDocuments chatId) = chatId"
| "target (GetDocuments chatId) = chatId"
| "target (GetDocumentCount chatId) = chatId"
| "target (GetDocumentNames chatId) = chatId"
| "target (SearchDocuments chatId query) = chatId"
| "target (GetAllContent chatId) = chatId"

section \<open>The context assembler\<close>

text \<open>
  \<open>generateAnswer\<close> up to its call of the remote model: the result is the early reply when
  the user has no document, or the context and the sources handed to \<open>callGemini\<close>; the
  sources are also the \<open>sources\<close> of the value \<open>generateAnswer\<close> returns.
\<close>

datatype prompt = NoDocuments | AskModel string "string list"

definition maxTotalContext :: nat where
  "maxTotalContext = 100000"

definition truncation_marker :: string where
  "truncation_marker = [CHR 0x0A, CHR 0x0A] @ ''[... document truncated for length ...]''"

definition page_icon :: string where
  \<comment> \<open>the one character of the header outside ASCII (U+1F4C4), as its UTF-8 bytes\<close>
  "page_icon = [CHR 0xF0, CHR 0x9F, CHR 0x93, CHR 0x84]"

definition header :: "string \<Rightarrow> string" where
  "header name =
     [CHR 0x0A, CHR 0x0A] @ replicate 60 CHR ''='' @ [CHR 0x0A] @ page_icon @ '' DOCUMENT: ''
       @ name @ [CHR 0x0A] @ replicate 60 CHR ''='' @ [CHR 0x0A]"

fun build_context :: "nat \<Rightarrow> file_content list \<Rightarrow> string \<times> string list \<Rightarrow> string \<times> string list" where
  \<comment> \<open>the loop over \<open>allDocs\<close>, with \<open>context\<close> and \<open>sources\<close>\<close>
  "build_context maxPerDoc [] (context', sources) = (context', sources)"
| "build_context maxPerDoc (doc # rest) (context', sources) =
     (let docContent =
            (if length (content doc) > maxPerDoc
             then take maxPerDoc (content doc) @ truncation_marker
             else content doc)
      in build_context maxPerDoc rest
           (context' @ header (fileName doc) @ docContent, sources @ [fileName doc]))"

definition generateAnswer :: "'u store \<Rightarrow> 'u \<Rightarrow> prompt" where
  "generateAnswer documents chatId =
     (let allDocs = getAllContent documents chatId in
      if length allDocs = 0 then NoDocuments
      else
        let maxPerDoc = maxTotalContext div length allDocs;
            (context', sources) = build_context maxPerDoc allDocs ([], [])
        in AskModel context' sources)"

section \<open>Notions of the statements\<close>

subsection \<open>Chunks\<close>

definition overlap_words :: "int \<Rightarrow> string \<Rightarrow> string" where
  \<comment> \<open>the last \<open>k\<close> words of \<open>c\<close>, joined by single spaces, as the chunker takes them:
      \<open>c.split(' ').slice(-k).join(' ')\<close>\<close>
  "overlap_words k c = join '' '' (slice_from (- k) (split_on CHR '' '' c))"

definition ends_solid :: "string \<Rightarrow> bool" where
  \<comment> \<open>a string that is not empty and does not end in white space\<close>
  "ends_solid s \<longleftrightarrow> s \<noteq> [] \<and> \<not> is_space (last s)"

definition seeded :: "int \<Rightarrow> string list \<Rightarrow> string \<Rightarrow> bool" where
  \<comment> \<open>the buffer begins with the overlap taken from the chunk closed last\<close>
  "seeded k closed cur \<longleftrightarrow>
     (closed \<noteq> [] \<longrightarrow>
        (\<exists>x. ends_solid x \<and> prefix x cur \<and>
             trimStart x = trimStart (overlap_words k (last closed))))"

abbreviation overlapping :: "int \<Rightarrow> string list \<Rightarrow> bool" where
  "overlapping k \<equiv> successively (\<lambda>a b. prefix (trimStart (overlap_words k a)) b)"

definition held :: "string \<Rightarrow> string list \<times> string \<Rightarrow> bool" where
  \<comment> \<open>the sentence is in a closed chunk or in the buffer\<close>
  "held s st \<longleftrightarrow> (\<exists>c \<in> set (fst st). sublist (trim s) c) \<or> sublist s (snd st)"

definition closing :: "int \<Rightarrow> string \<Rightarrow> string list \<times> string \<Rightarrow> bool" where
  \<comment> \<open>the sentence ends a closed chunk, or it is longer than the size and ends the buffer\<close>
  "closing chunkSize s st \<longleftrightarrow>
     (\<exists>c \<in> set (fst st). suffix (trim s) c) \<or> (suffix s (snd st) \<and> chunkSize < int (length s))"

definition overlap_seed :: "int \<Rightarrow> string list \<Rightarrow> string \<Rightarrow> bool" where
  \<comment> \<open>what stands before a sentence that opens a buffer: nothing, or the overlap words of
      a buffer closed as a chunk, and one space\<close>
  "overlap_seed k closed pre \<longleftrightarrow>
     pre = [] \<or> (\<exists>b. trim b \<in> set closed \<and> pre = overlap_words k b @ '' '')"

definition alone :: "int \<Rightarrow> int \<Rightarrow> string \<Rightarrow> string list \<times> string \<Rightarrow> bool" where
  \<comment> \<open>the sentence, after an overlap seed, is a closed chunk or the whole buffer\<close>
  "alone chunkSize k s st \<longleftrightarrow>
     (\<exists>c \<in> set (fst st). \<exists>pre. c = trim (pre @ s) \<and> overlap_seed k (fst st) pre) \<or>
     (\<exists>pre. snd st = pre @ s \<and> overlap_seed k (fst st) pre)"

subsection \<open>The store\<close>

definition first_index :: "string \<Rightarrow> document list \<Rightarrow> nat \<Rightarrow> bool" where
  \<comment> \<open>\<open>i\<close> is the first index of \<open>docs\<close> whose document has the name\<close>
  "first_index name docs i \<longleftrightarrow>
     i < length docs \<and> fileName (docs ! i) = name \<and> (\<forall>j < i. fileName (docs ! j) \<noteq> name)"

definition names_unique :: "'u store \<Rightarrow> bool" where
  \<comment> \<open>no collection holds two documents of one name\<close>
  "names_unique documents \<longleftrightarrow> (\<forall>chatId. distinct (getDocumentNames documents chatId))"

fun is_read :: "'u operation \<Rightarrow> bool" where
  "is_read (AddDocument chatId name text now) \<longleftrightarrow> False"
| "is_read (DeleteDocument chatId name) \<longleftrightarrow> False"
| "is_read (ClearDocuments chatId) \<longleftrightarrow> False"
| "is_read (GetDocuments chatId) \<longleftrightarrow> True"
| "is_read (GetDocumentCount chatId) \<longleftrightarrow> True"
| "is_read (GetDocumentNames chatId) \<longleftrightarrow> True"
| "is_read (SearchDocuments chatId query) \<longleftrightarrow> True"
| "is_read (GetAllContent chatId) \<longleftrightarrow> True"

subsection \<open>The context\<close>

definition included_body :: "nat \<Rightarrow> 'a file_content_scheme \<Rightarrow> string" where
  \<comment> \<open>the body of a document in the context, under the budget \<open>m\<close> for one document\<close>
  "included_body m d =
     (if m < length (content d) then take m (content d) @ truncation_marker else content d)"

definition long_text :: string where
  \<comment> \<open>a text of 50000 characters\<close>
  "long_text = replicate 50000 CHR ''a''"

subsection \<open>Search results and scores\<close>

definition scored :: "string list \<Rightarrow> string \<Rightarrow> string \<Rightarrow> search_result list" where
  \<comment> \<open>the result for one chunk, if its score is positive\<close>
  "scored qw name c =
     (case calculateRelevance (toLowerCase c) qw of
        Inl e \<Rightarrow> []
      | Inr sc \<Rightarrow> if 0 < sc then [\<lparr>fileName = name, chunk = c, score = sc\<rparr>] else [])"

definition hits :: "string list \<Rightarrow> document list \<Rightarrow> search_result list" where
  \<comment> \<open>the chunks of positive score in encounter order: documents in collection order,
      the chunks of a document in their order\<close>
  "hits qw docs = concat (map (\<lambda>d. concat (map (scored qw (fileName d)) (chunks d))) docs)"

definition example_store :: "nat store" where
  \<comment> \<open>for the query \<open>abc xyz\<close> the chunks of \<open>a.pdf\<close> score 5, 5, 2, 0 and 8, and each
      chunk of \<open>b.pdf\<close> scores 1\<close>
  "example_store =
     [1 \<mapsto>
       [\<lparr>fileName = ''a.pdf'', content = ''A'',
          chunks = [''xyz xyz abc abc abc'', ''xyz abc abc abc abc'', ''xyz abc'',
                    ''nothing here'', ''abc xyz abc xyz''],
          uploadedAt = ''t0''\<rparr>,
        \<lparr>fileName = ''b.pdf'', content = ''B'',
          chunks = [''abc 1'', ''abc 2'', ''abc 3'', ''abc 4'', ''abc 5'', ''abc 6'',
                    ''abc 7'', ''abc 8''],
          uploadedAt = ''t1''\<rparr>]]"

definition syntax_char :: "char \<Rightarrow> bool" where
  \<comment> \<open>the characters with a meaning in a pattern: \<open>^ $ \ . * + ? ( ) [ ] { } |\<close>\<close>
  "syntax_char c \<longleftrightarrow> c \<in> set (CHR 0x5C # ''^$.*+?()[]{}|'')"

definition plain_word :: "string \<Rightarrow> bool" where
  "plain_word w \<longleftrightarrow> list_all (\<lambda>c. \<not> syntax_char c) w"

definition well_formed :: "string \<Rightarrow> bool" where
  \<comment> \<open>the constructor accepts the word as a pattern\<close>
  "well_formed w \<longleftrightarrow> (case RegExp_gi w of Inl e \<Rightarrow> False | Inr regex \<Rightarrow> True)"

text \<open>
  The score as the specification words it: for each query word the number of its
  occurrences in the chunk, compared without regard to case and counted left to right
  without overlap, and a bonus of twice the number of words when the lower-cased chunk
  contains the words joined by single spaces.
\<close>

fun occurrences :: "string \<Rightarrow> string \<Rightarrow> nat" where
  "occurrences word [] = 0"
| "occurrences word (c # cs) =
     (if word \<noteq> [] \<and> prefix (toLowerCase word) (toLowerCase (c # cs))
      then Suc (occurrences word (drop (length word - 1) cs))
      else occurrences word cs)"

definition spec_relevance :: "string \<Rightarrow> string list \<Rightarrow> int" where
  "spec_relevance chunk' words =
     sum_list (map (\<lambda>w. int (occurrences w chunk')) words) +
     (if sublist (join '' '' words) (toLowerCase chunk') then int (length words) * 2 else 0)"

section \<open>The chunker never returns an empty sequence\<close>

lemma split_sentences_empty: "split_sentences [] = [[]]"
  by (simp add: split_sentences_def)

lemma trim_empty: "trim [] = []"
  by (simp add: trim_def trimStart_def trimEnd_def)

text \<open>
  Claim C4. For every text and all parameters the chunker returns at least one chunk, and
  on the empty text it returns the sequence whose only element is the empty text.
\<close>

theorem chunkText_never_empty:
  "chunkText [] chunkSize overlap = [[]] \<and> chunkText text chunkSize overlap \<noteq> []"
proof
  show "chunkText [] chunkSize overlap = [[]]"
    by (simp add: chunkText_def split_sentences_empty trim_empty)
  show "chunkText text chunkSize overlap \<noteq> []"
    by (simp add: chunkText_def Let_def split: prod.splits)
qed

section \<open>The overlap between adjacent chunks\<close>

lemma terminator_not_space: "is_terminator c \<Longrightarrow> \<not> is_space c"
  by (auto simp: is_terminator_def is_space_def)

lemma space_is_space: "is_space CHR '' ''"
  by (simp add: is_space_def)

lemma split_sentences_from_butlast:
  "s \<in> set (butlast (split_sentences_from cur cs)) \<Longrightarrow> s \<noteq> [] \<and> is_terminator (last s)"
  by (induction cur cs rule: split_sentences_from.induct) (auto split: if_splits)

lemma split_sentences_butlast:
  "s \<in> set (butlast (split_sentences text)) \<Longrightarrow> ends_solid s"
  using split_sentences_from_butlast [of s "[]" "text"]
  by (simp add: split_sentences_def ends_solid_def terminator_not_space)

lemma ends_solid_append: "ends_solid s \<Longrightarrow> ends_solid (t @ s)"
  by (simp add: ends_solid_def)

lemma trimStart_ends_solid: "ends_solid s \<Longrightarrow> ends_solid (trimStart s)"
proof -
  assume a: "ends_solid s"
  then have m: "last s \<in> set s" "\<not> is_space (last s)" by (auto simp: ends_solid_def)
  then have "dropWhile is_space s \<noteq> []" by auto
  moreover have "s = takeWhile is_space s @ dropWhile is_space s" by simp
  ultimately have "last (dropWhile is_space s) = last s"
    by (metis last_appendR)
  with m \<open>dropWhile is_space s \<noteq> []\<close> show ?thesis by (simp add: ends_solid_def trimStart_def)
qed

lemma trimEnd_ends_solid: "ends_solid s \<Longrightarrow> trimEnd s = s"
  by (cases s rule: rev_cases) (auto simp: ends_solid_def trimEnd_def)

lemma trim_ends_solid: "ends_solid s \<Longrightarrow> trim s = trimStart s"
  by (simp add: trim_def trimEnd_ends_solid trimStart_ends_solid)

lemma prefix_trimEnd: "ends_solid a \<Longrightarrow> prefix a (trimEnd (a @ t))"
  by (cases a rule: rev_cases) (auto simp: ends_solid_def trimEnd_def dropWhile_append)

lemma prefix_trim_append:
  assumes "ends_solid x" shows "prefix (trimStart x) (trim (x @ t))"
proof -
  from assms have "last x \<in> set x" "\<not> is_space (last x)" by (auto simp: ends_solid_def)
  then have "trimStart (x @ t) = trimStart x @ t"
    by (auto simp: trimStart_def)
  then show ?thesis
    using prefix_trimEnd [OF trimStart_ends_solid [OF assms], of t] by (simp add: trim_def)
qed

lemma split_on_not_Nil: "split_on sep s \<noteq> []"
  by (induction s) (auto split: list.splits)

lemma last_split_on_solid:
  "ends_solid s \<Longrightarrow> ends_solid (last (split_on CHR '' '' s))"
proof (induction s)
  case Nil
  then show ?case by (simp add: ends_solid_def)
next
  case (Cons c s)
  show ?case
  proof (cases "s = []")
    case True
    with Cons.prems show ?thesis by (auto simp: ends_solid_def space_is_space)
  next
    case False
    with Cons.prems have "ends_solid s" by (simp add: ends_solid_def)
    with Cons.IH have "ends_solid (last (split_on CHR '' '' s))" by simp
    then show ?thesis
      using split_on_not_Nil [of "CHR '' ''" s]
      by (cases "split_on CHR '' '' s") (auto simp: ends_solid_def)
  qed
qed

lemma last_join: "ps \<noteq> [] \<Longrightarrow> last ps \<noteq> [] \<Longrightarrow> join sep ps \<noteq> [] \<and> last (join sep ps) = last (last ps)"
  by (induction sep ps rule: join.induct) auto

lemma join_ends_solid: "ps \<noteq> [] \<Longrightarrow> ends_solid (last ps) \<Longrightarrow> ends_solid (join sep ps)"
  using last_join [of ps sep] by (simp add: ends_solid_def)

lemma slice_from_last:
  "1 \<le> k \<Longrightarrow> ps \<noteq> [] \<Longrightarrow> slice_from (- k) ps \<noteq> [] \<and> last (slice_from (- k) ps) = last ps"
proof -
  assume k: "1 \<le> k" and ps: "ps \<noteq> []"
  then have "length ps - nat k < length ps" by (cases ps) auto
  with k show ?thesis by (simp add: slice_from_def)
qed

lemma overlap_words_ends_solid:
  assumes "1 \<le> k" "ends_solid s" shows "ends_solid (overlap_words k s)"
proof -
  let ?ps = "split_on CHR '' '' s"
  have "slice_from (- k) ?ps \<noteq> []" "last (slice_from (- k) ?ps) = last ?ps"
    using slice_from_last [OF assms(1) split_on_not_Nil] by auto
  then show ?thesis
    using join_ends_solid last_split_on_solid [OF assms(2)] by (simp add: overlap_words_def)
qed


lemma join_Cons_Cons: "join sep ((c # p) # ps) = c # join sep (p # ps)"
  by (cases ps) auto

lemma join_Nil_Cons: "ps \<noteq> [] \<Longrightarrow> join sep ([] # ps) = sep @ join sep ps"
  by (cases ps) auto

lemma trimStart_space_Cons: "is_space w \<Longrightarrow> trimStart (w # s) = trimStart s"
  by (simp add: trimStart_def)

lemma overlap_words_leading_space:
  assumes w: "is_space w" and k: "1 \<le> k"
  shows "trimStart (overlap_words k (w # s)) = trimStart (overlap_words k s)"
proof -
  obtain p ps where ps: "split_on CHR '' '' s = p # ps"
    using split_on_not_Nil [of "CHR '' ''" s] by (cases "split_on CHR '' '' s") auto
  let ?n = "length (p # ps)"
  show ?thesis
  proof (cases "w = CHR '' ''")
    case True
    show ?thesis
    proof (cases "nat k \<le> ?n")
      case True
      then have "Suc ?n - nat k = Suc (?n - nat k)" by simp
      with \<open>w = CHR '' ''\<close> k ps show ?thesis
        by (simp add: overlap_words_def slice_from_def)
    next
      case False
      then have "Suc ?n - nat k = 0" "?n - nat k = 0" by simp_all
      with \<open>w = CHR '' ''\<close> k ps show ?thesis
        by (simp add: overlap_words_def slice_from_def join_Nil_Cons
            trimStart_space_Cons space_is_space)
    qed
  next
    case False
    then have sp: "split_on CHR '' '' (w # s) = (w # p) # ps" using ps by simp
    show ?thesis
    proof (cases "?n - nat k")
      case 0
      with k sp ps w show ?thesis
        by (simp add: overlap_words_def slice_from_def join_Cons_Cons trimStart_space_Cons)
    next
      case (Suc m)
      with k sp ps show ?thesis
        by (simp add: overlap_words_def slice_from_def)
    qed
  qed
qed

lemma overlap_words_trimStart:
  "1 \<le> k \<Longrightarrow> trimStart (overlap_words k (trimStart s)) = trimStart (overlap_words k s)"
proof (induction s)
  case Nil
  then show ?case by (simp add: trimStart_def)
next
  case (Cons c s)
  show ?case
  proof (cases "is_space c")
    case True
    with Cons show ?thesis
      by (simp add: overlap_words_leading_space trimStart_space_Cons)
  next
    case False
    then show ?thesis by (simp add: trimStart_def)
  qed
qed

lemma overlapping_snoc:
  assumes "overlapping k closed" "seeded k closed cur"
  shows "overlapping k (closed @ [trim cur])"
proof (cases "closed = []")
  case True
  then show ?thesis by simp
next
  case False
  with assms(2) obtain x t where x: "ends_solid x" "cur = x @ t"
      "trimStart x = trimStart (overlap_words k (last closed))"
    by (auto simp: seeded_def prefix_def)
  then have "prefix (trimStart (overlap_words k (last closed))) (trim cur)"
    using prefix_trim_append [OF x(1), of t] by simp
  with assms(1) False show ?thesis
    by (simp add: successively_append_iff)
qed

lemma chunk_loop_overlapping:
  assumes "1 \<le> overlap div 10"
    and "\<forall>s \<in> set (butlast sentences). ends_solid s"
    and "sentences \<noteq> [] \<longrightarrow> cur = [] \<or> ends_solid cur"
    and "overlapping (overlap div 10) closed"
    and "seeded (overlap div 10) closed cur"
    and "chunk_loop chunkSize overlap sentences (closed, cur) = (closed', cur')"
  shows "overlapping (overlap div 10) closed' \<and> seeded (overlap div 10) closed' cur'"
  using assms
proof (induction sentences arbitrary: closed cur)
  case Nil
  then show ?case by simp
next
  case (Cons s rest)
  let ?k = "overlap div 10"
  have rest_solid: "\<forall>s \<in> set (butlast rest). ends_solid s"
    using Cons.prems(2) by (auto split: if_splits)
  have s_solid: "rest \<noteq> [] \<Longrightarrow> ends_solid s"
    using Cons.prems(2) by simp
  show ?case
  proof (cases "int (length (cur @ s)) > chunkSize \<and> length cur > 0")
    case True
    let ?cur = "overlap_words ?k cur @ '' '' @ s"
    from True Cons.prems(3) have cur: "ends_solid cur" by auto
    have run: "chunk_loop chunkSize overlap rest (closed @ [trim cur], ?cur) = (closed', cur')"
      using Cons.prems(6) True by (simp add: overlap_words_def Let_def)
    have a: "rest \<noteq> [] \<longrightarrow> ?cur = [] \<or> ends_solid ?cur"
      using s_solid by (auto simp: ends_solid_def)
    have b: "overlapping ?k (closed @ [trim cur])"
      using overlapping_snoc Cons.prems(4,5) by simp
    have "trimStart (overlap_words ?k cur) = trimStart (overlap_words ?k (trim cur))"
      using overlap_words_trimStart [OF Cons.prems(1), of cur] trim_ends_solid [OF cur] by simp
    then have c: "seeded ?k (closed @ [trim cur]) ?cur"
      using overlap_words_ends_solid [OF Cons.prems(1) cur]
      by (auto simp: seeded_def)
    show ?thesis
      using Cons.IH [OF Cons.prems(1) rest_solid a b c run] .
  next
    case False
    let ?cur = "cur @ (if cur \<noteq> [] then '' '' else []) @ s"
    have run: "chunk_loop chunkSize overlap rest (closed, ?cur) = (closed', cur')"
      using Cons.prems(6) False by auto
    have a: "rest \<noteq> [] \<longrightarrow> ?cur = [] \<or> ends_solid ?cur"
      using s_solid by (auto simp: ends_solid_def)
    have c: "seeded ?k closed ?cur"
      using Cons.prems(5) by (auto simp: seeded_def)
    show ?thesis
      using Cons.IH [OF Cons.prems(1) rest_solid a Cons.prems(4) c run] .
  qed
qed

lemma chunkText_overlapping:
  assumes "1 \<le> overlap div 10"
  shows "overlapping (overlap div 10) (chunkText text chunkSize overlap)"
proof -
  obtain closed cur where run:
    "chunk_loop chunkSize overlap (split_sentences text) ([], []) = (closed, cur)"
    by (cases "chunk_loop chunkSize overlap (split_sentences text) ([], [])")
  have inv: "overlapping (overlap div 10) closed \<and> seeded (overlap div 10) closed cur"
    using chunk_loop_overlapping [OF assms _ _ _ _ run]
    by (simp add: split_sentences_butlast seeded_def)
  then have "overlapping (overlap div 10) (closed @ [trim cur])"
    using overlapping_snoc by simp
  with inv run show ?thesis
    by (simp add: chunkText_def)
qed

lemma successively_nth:
  "successively P xs \<Longrightarrow> Suc i < length xs \<Longrightarrow> P (xs ! i) (xs ! Suc i)"
proof (induction P xs arbitrary: i rule: successively.induct)
  case (3 P x y xs)
  then show ?case by (cases i) auto
qed auto

text \<open>
  Claim C3, as amended. When \<open>floor(overlap / 10)\<close> is at least 1, the last
  \<open>floor(overlap / 10)\<close> words of a chunk that has a successor (the pieces between its
  single spaces), joined by single spaces and with the white space at their head removed,
  stand at the head of the next chunk.
\<close>

theorem overlap_at_head:
  assumes "1 \<le> overlap div 10"
    and "Suc i < length (chunkText text chunkSize overlap)"
  shows "prefix (trimStart (overlap_words (overlap div 10) (chunkText text chunkSize overlap ! i)))
           (chunkText text chunkSize overlap ! Suc i)"
  using successively_nth [OF chunkText_overlapping [OF assms(1)] assms(2)] .

text \<open>
  The amended claim C3 at the text \<open>x y  z. next.\<close> with size 8 and overlap 20: the two
  last words of the first chunk are the empty word and \<open>z.\<close>, and the second chunk begins
  with \<open>z.\<close>.
\<close>

theorem overlap_at_head_witness:
  "(1::int) \<le> 20 div 10 \<and> Suc 0 < length (chunkText ''x y  z. next.'' 8 20) \<and>
   chunkText ''x y  z. next.'' 8 20 = [''x y  z.'', ''z. next.''] \<and>
   overlap_words (20 div 10) ''x y  z.'' = '' z.'' \<and>
   prefix (trimStart (overlap_words (20 div 10) (chunkText ''x y  z. next.'' 8 20 ! 0)))
           (chunkText ''x y  z. next.'' 8 20 ! Suc 0)"
proof -
  have c: "chunkText ''x y  z. next.'' 8 20 = [''x y  z.'', ''z. next.'']"
    by code_simp
  have o: "overlap_words (20 div 10) ''x y  z.'' = '' z.''"
    by code_simp
  have h1: "(1::int) \<le> 20 div 10" by simp
  have h2: "Suc 0 < length (chunkText ''x y  z. next.'' 8 20)" by (simp add: c)
  show ?thesis using overlap_at_head [OF h1 h2] h1 h2 c o by simp
qed

text \<open>
  Claim C3 as it is stated fails at the same input. The words taken over are the empty
  word and \<open>z.\<close>, which joined by a single space are \<open> z.\<close>; the next chunk is trimmed and
  begins with \<open>z.\<close>. The two last words between white space, \<open>y z.\<close>, do not stand at its
  head either.
\<close>

theorem overlap_counterexample:
  "chunkText ''x y  z. next.'' 8 20 = [''x y  z.'', ''z. next.''] \<and>
   overlap_words (20 div 10) ''x y  z.'' = '' z.'' \<and>
   \<not> prefix (overlap_words (20 div 10) (chunkText ''x y  z. next.'' 8 20 ! 0))
           (chunkText ''x y  z. next.'' 8 20 ! Suc 0) \<and>
   \<not> prefix ''y z.'' (chunkText ''x y  z. next.'' 8 20 ! Suc 0)"
  by code_simp

section \<open>Every sentence is kept whole\<close>

lemma trimStart_solid_middle:
  "m \<noteq> [] \<Longrightarrow> \<not> is_space (hd m) \<Longrightarrow> trimStart (a @ m @ b) = trimStart a @ m @ b"
  by (cases m) (auto simp: trimStart_def dropWhile_append)

lemma trimEnd_solid_middle:
  "m \<noteq> [] \<Longrightarrow> \<not> is_space (last m) \<Longrightarrow> trimEnd (a @ m @ b) = a @ m @ trimEnd b"
  by (cases m rule: rev_cases) (auto simp: trimEnd_def dropWhile_append)

lemma trim_solid_middle:
  "m \<noteq> [] \<Longrightarrow> \<not> is_space (hd m) \<Longrightarrow> \<not> is_space (last m) \<Longrightarrow>
   trim (a @ m @ b) = trimStart a @ m @ trimEnd b"
  by (simp add: trim_def trimStart_solid_middle trimEnd_solid_middle)

lemma trimEnd_all_space: "\<forall>c \<in> set w. is_space c \<Longrightarrow> trimEnd w = []"
  by (simp add: trimEnd_def)

lemma trim_decompose:
  assumes "trim s \<noteq> []"
  obtains w1 w2 where "s = w1 @ trim s @ w2" "\<forall>c \<in> set w2. is_space c"
    "\<not> is_space (hd (trim s))" "\<not> is_space (last (trim s))"
proof -
  let ?t = "dropWhile is_space s"
  let ?r = "dropWhile is_space (rev ?t)"
  have ts: "trim s = rev ?r" by (simp add: trim_def trimStart_def trimEnd_def)
  with assms have r: "?r \<noteq> []" by simp
  have "rev ?r @ rev (takeWhile is_space (rev ?t)) = rev (takeWhile is_space (rev ?t) @ ?r)"
    by (simp only: rev_append)
  also have "\<dots> = rev (rev ?t)" by (simp only: takeWhile_dropWhile_id)
  finally have t: "?t = rev ?r @ rev (takeWhile is_space (rev ?t))" by simp
  have "s = takeWhile is_space s @ ?t" by simp
  with t have s: "s = takeWhile is_space s @ trim s @ rev (takeWhile is_space (rev ?t))"
    using ts by metis
  have w2: "\<forall>c \<in> set (rev (takeWhile is_space (rev ?t))). is_space c"
    by (auto dest: set_takeWhileD)
  have "?t \<noteq> []" using r by (cases "?t = []") simp_all
  then have "\<not> is_space (hd ?t)" by (rule hd_dropWhile)
  moreover have "hd ?t = hd (trim s)" using t assms ts by (metis hd_append2)
  ultimately have h: "\<not> is_space (hd (trim s))" by simp
  have "\<not> is_space (hd ?r)" using r by (rule hd_dropWhile)
  then have l: "\<not> is_space (last (trim s))" using ts r by (simp add: last_rev)
  show thesis using that [OF s w2 h l] .
qed

lemma sublist_trim:
  assumes "sublist s cur" shows "sublist (trim s) (trim cur)"
proof (cases "trim s = []")
  case True
  then show ?thesis by simp
next
  case False
  from assms obtain a b where cur: "cur = a @ s @ b" by (auto simp: sublist_def)
  from False obtain w1 w2 where s: "s = w1 @ trim s @ w2"
    and m: "\<not> is_space (hd (trim s))" "\<not> is_space (last (trim s))"
    by (rule trim_decompose)
  have "cur = (a @ w1) @ trim s @ (w2 @ b)"
    using arg_cong [OF s, of "\<lambda>x. a @ x @ b"] cur by simp
  then have "trim cur = trimStart (a @ w1) @ trim s @ trimEnd (w2 @ b)"
    using trim_solid_middle [OF False m] by metis
  then show ?thesis by (auto simp: sublist_def)
qed

lemma suffix_trim:
  assumes "suffix s cur" shows "suffix (trim s) (trim cur)"
proof (cases "trim s = []")
  case True
  then show ?thesis by simp
next
  case False
  from assms obtain a where cur: "cur = a @ s" by (auto simp: suffix_def)
  from False obtain w1 w2 where s: "s = w1 @ trim s @ w2"
    and w2: "\<forall>c \<in> set w2. is_space c"
    and m: "\<not> is_space (hd (trim s))" "\<not> is_space (last (trim s))"
    by (rule trim_decompose)
  have "cur = (a @ w1) @ trim s @ w2"
    using arg_cong [OF s, of "\<lambda>x. a @ x"] cur by simp
  then have "trim cur = trimStart (a @ w1) @ trim s @ trimEnd w2"
    using trim_solid_middle [OF False m] by metis
  then show ?thesis by (simp add: trimEnd_all_space [OF w2] suffix_def)
qed

lemma chunk_loop_append:
  "chunk_loop chunkSize overlap (xs @ ys) st =
   chunk_loop chunkSize overlap ys (chunk_loop chunkSize overlap xs st)"
proof (induction xs arbitrary: st)
  case Nil
  then show ?case by (cases st) simp
next
  case (Cons x xs)
  then show ?case by (cases st) (simp add: Let_def)
qed

lemma chunk_loop_held:
  "held s st \<Longrightarrow> held s (chunk_loop chunkSize overlap sentences st)"
proof (induction sentences arbitrary: st)
  case Nil
  then show ?case by (cases st) simp
next
  case (Cons t rest)
  obtain closed cur where st: "st = (closed, cur)" by (cases st)
  show ?case
  proof (cases "int (length (cur @ t)) > chunkSize \<and> length cur > 0")
    case True
    have "held s (closed @ [trim cur],
            join '' '' (slice_from (- (overlap div 10)) (split_on CHR '' '' cur)) @ '' '' @ t)"
      using Cons.prems st by (auto simp: held_def dest: sublist_trim)
    from Cons.IH [OF this] True st show ?thesis by (simp add: Let_def)
  next
    case False
    have "held s (closed, cur @ (if cur \<noteq> [] then '' '' else []) @ t)"
      using Cons.prems st by (auto simp: held_def sublist_append)
    from Cons.IH [OF this] False st show ?thesis by auto
  qed
qed

lemma chunk_loop_closing:
  "closing chunkSize s st \<Longrightarrow> closing chunkSize s (chunk_loop chunkSize overlap sentences st)"
proof (induction sentences arbitrary: st)
  case Nil
  then show ?case by (cases st) simp
next
  case (Cons t rest)
  obtain closed cur where st: "st = (closed, cur)" by (cases st)
  show ?case
  proof (cases "int (length (cur @ t)) > chunkSize \<and> length cur > 0")
    case True
    have "closing chunkSize s (closed @ [trim cur],
            join '' '' (slice_from (- (overlap div 10)) (split_on CHR '' '' cur)) @ '' '' @ t)"
      using Cons.prems st by (auto simp: closing_def dest: suffix_trim)
    from Cons.IH [OF this] True st show ?thesis by (simp add: Let_def)
  next
    case False
    have "closing chunkSize s (closed, cur @ (if cur \<noteq> [] then '' '' else []) @ t)"
    proof (cases "\<exists>c \<in> set closed. suffix (trim s) c")
      case True
      then show ?thesis by (simp add: closing_def)
    next
      case no: False
      with Cons.prems st have sc: "suffix s cur" "chunkSize < int (length s)"
        by (auto simp: closing_def)
      then have "length s \<le> length cur" by (simp add: suffix_length_le)
      with sc False have "cur = []" by auto
      with sc have "s = []" by simp
      with sc show ?thesis by (simp add: closing_def)
    qed
    from Cons.IH [OF this] False st show ?thesis by auto
  qed
qed

lemma chunk_loop_takes_in:
  "chunk_loop chunkSize overlap [s] st = st' \<Longrightarrow> suffix s (snd st')"
  by (cases st) (auto simp: Let_def suffix_def split: if_splits)

lemma chunkText_not_Nil: "chunkText text chunkSize overlap \<noteq> []"
  by (simp add: chunkText_def Let_def split: prod.splits)

lemma chunkText_has_chunk: "\<exists>c. c \<in> set (chunkText text chunkSize overlap)"
  using chunkText_not_Nil [of "text" chunkSize overlap]
  by (cases "chunkText text chunkSize overlap") auto

lemma chunkText_final_chunk:
  "chunk_loop chunkSize overlap (split_sentences text) ([], []) = (closed, cur) \<Longrightarrow>
   trim cur \<noteq> [] \<Longrightarrow> trim cur \<in> set (chunkText text chunkSize overlap)"
  by (simp add: chunkText_def)

lemma chunkText_loop_chunks:
  "chunk_loop chunkSize overlap (split_sentences text) ([], []) = (closed, cur) \<Longrightarrow>
   c \<in> set closed \<Longrightarrow> c \<in> set (chunkText text chunkSize overlap)"
  by (auto simp: chunkText_def)

lemma held_finally:
  assumes "held s (chunk_loop chunkSize overlap (split_sentences text) ([], []))"
  shows "\<exists>c \<in> set (chunkText text chunkSize overlap). sublist (trim s) c"
proof -
  obtain closed cur where run:
    "chunk_loop chunkSize overlap (split_sentences text) ([], []) = (closed, cur)"
    by (cases "chunk_loop chunkSize overlap (split_sentences text) ([], [])")
  show ?thesis
  proof (cases "\<exists>c \<in> set closed. sublist (trim s) c")
    case True
    with run show ?thesis by (auto dest: chunkText_loop_chunks)
  next
    case False
    with assms run have sub: "sublist (trim s) (trim cur)"
      by (auto simp: held_def dest: sublist_trim)
    show ?thesis
    proof (cases "trim cur = []")
      case True
      with sub have "trim s = []" by simp
      with chunkText_has_chunk show ?thesis by auto
    next
      case False
      from chunkText_final_chunk [OF run False] sub show ?thesis by auto
    qed
  qed
qed

lemma closing_finally:
  assumes "closing chunkSize s (chunk_loop chunkSize overlap (split_sentences text) ([], []))"
  shows "\<exists>c \<in> set (chunkText text chunkSize overlap). suffix (trim s) c"
proof -
  obtain closed cur where run:
    "chunk_loop chunkSize overlap (split_sentences text) ([], []) = (closed, cur)"
    by (cases "chunk_loop chunkSize overlap (split_sentences text) ([], [])")
  show ?thesis
  proof (cases "\<exists>c \<in> set closed. suffix (trim s) c")
    case True
    with run show ?thesis by (auto dest: chunkText_loop_chunks)
  next
    case False
    with assms run have suf: "suffix (trim s) (trim cur)"
      by (auto simp: closing_def dest: suffix_trim)
    show ?thesis
    proof (cases "trim cur = []")
      case True
      with suf have "trim s = []" by simp
      with chunkText_has_chunk show ?thesis by auto
    next
      case False
      from chunkText_final_chunk [OF run False] suf show ?thesis by auto
    qed
  qed
qed

lemma overlap_seed_mono:
  "overlap_seed k closed pre \<Longrightarrow> overlap_seed k (closed @ later) pre"
  by (auto simp: overlap_seed_def)

lemma chunk_loop_alone:
  assumes "chunkSize < int (length s)" "s \<noteq> []"
  shows "alone chunkSize (overlap div 10) s st \<Longrightarrow>
         alone chunkSize (overlap div 10) s (chunk_loop chunkSize overlap sentences st)"
proof (induction sentences arbitrary: st)
  case Nil
  then show ?case by (cases st) simp
next
  case (Cons t rest)
  obtain closed cur where st: "st = (closed, cur)" by (cases st)
  let ?k = "overlap div 10"
  show ?case
  proof (cases "int (length (cur @ t)) > chunkSize \<and> length cur > 0")
    case True
    let ?st = "(closed @ [trim cur],
            join '' '' (slice_from (- ?k) (split_on CHR '' '' cur)) @ '' '' @ t)"
    have "alone chunkSize ?k s ?st"
      using Cons.prems st
      by (auto simp: alone_def dest: overlap_seed_mono) (metis overlap_seed_mono)
    from Cons.IH [OF this] True st show ?thesis by (simp add: Let_def)
  next
    case False
    have "\<exists>c \<in> set closed. \<exists>pre. c = trim (pre @ s) \<and> overlap_seed ?k closed pre"
    proof (rule ccontr)
      assume "\<not> ?thesis"
      with Cons.prems st obtain pre where "cur = pre @ s" by (auto simp: alone_def)
      with assms False show False by auto
    qed
    then have "alone chunkSize ?k s (closed, cur @ (if cur \<noteq> [] then '' '' else []) @ t)"
      by (simp add: alone_def)
    from Cons.IH [OF this] False st show ?thesis by auto
  qed
qed

lemma chunk_loop_takes_alone:
  assumes "chunkSize < int (length s)"
  shows "alone chunkSize (overlap div 10) s (chunk_loop chunkSize overlap [s] st)"
proof -
  obtain closed cur where st: "st = (closed, cur)" by (cases st)
  show ?thesis
  proof (cases "cur = []")
    case True
    with st show ?thesis by (simp add: alone_def overlap_seed_def)
  next
    case False
    with assms have "int (length (cur @ s)) > chunkSize \<and> length cur > 0" by simp
    with st have "chunk_loop chunkSize overlap [s] st =
        (closed @ [trim cur], overlap_words (overlap div 10) cur @ '' '' @ s)"
      by (simp add: Let_def overlap_words_def)
    moreover have "overlap_seed (overlap div 10) (closed @ [trim cur])
        (overlap_words (overlap div 10) cur @ '' '')"
      by (auto simp: overlap_seed_def)
    ultimately show ?thesis by (auto simp: alone_def)
  qed
qed

lemma alone_finally:
  assumes "alone chunkSize k s (chunk_loop chunkSize overlap (split_sentences text) ([], []))"
    and "trim s \<noteq> []"
  shows "\<exists>c \<in> set (chunkText text chunkSize overlap). \<exists>pre. c = trim (pre @ s) \<and>
           overlap_seed k (chunkText text chunkSize overlap) pre"
proof -
  obtain closed cur where run:
    "chunk_loop chunkSize overlap (split_sentences text) ([], []) = (closed, cur)"
    by (cases "chunk_loop chunkSize overlap (split_sentences text) ([], [])")
  have sub: "set closed \<subseteq> set (chunkText text chunkSize overlap)"
    using chunkText_loop_chunks [OF run] by blast
  have mono: "overlap_seed k (chunkText text chunkSize overlap) pre"
    if "overlap_seed k closed pre" for pre
    using that sub by (auto simp: overlap_seed_def)
  show ?thesis
  proof (cases "\<exists>c \<in> set closed. \<exists>pre. c = trim (pre @ s) \<and> overlap_seed k closed pre")
    case True
    with sub mono show ?thesis by blast
  next
    case False
    with assms(1) run obtain pre where pre: "cur = pre @ s" "overlap_seed k closed pre"
      by (auto simp: alone_def)
    have "sublist (trim s) (trim cur)"
      by (rule sublist_trim) (simp add: pre(1))
    with assms(2) have "trim cur \<noteq> []" by auto
    from chunkText_final_chunk [OF run this] pre mono show ?thesis by blast
  qed
qed

text \<open>
  Claim C5, as amended. Every sentence of the sentence split, with the white space at its
  two ends removed, stands unsplit inside some chunk. A sentence longer than the chunk
  size ends the chunk that holds it, so that no later sentence shares its chunk; and when
  it is not blank, that chunk is the trimmed text of the sentence alone or of the sentence
  after the overlap words of an earlier buffer and one space.
\<close>

theorem sentences_kept_whole:
  assumes "s \<in> set (split_sentences text)"
  shows "(\<exists>c \<in> set (chunkText text chunkSize overlap). sublist (trim s) c) \<and>
         (chunkSize < int (length s) \<longrightarrow>
            (\<exists>c \<in> set (chunkText text chunkSize overlap). suffix (trim s) c) \<and>
            (trim s \<noteq> [] \<longrightarrow>
               (\<exists>c \<in> set (chunkText text chunkSize overlap). \<exists>pre.
                   c = trim (pre @ s) \<and>
                   overlap_seed (overlap div 10) (chunkText text chunkSize overlap) pre)))"
proof -
  from assms obtain pre post where sp: "split_sentences text = pre @ [s] @ post"
    by (auto dest: split_list)
  define st where "st = chunk_loop chunkSize overlap [s] (chunk_loop chunkSize overlap pre ([], []))"
  have run: "chunk_loop chunkSize overlap (split_sentences text) ([], []) =
             chunk_loop chunkSize overlap post st"
    by (simp only: sp chunk_loop_append st_def)
  have suf: "suffix s (snd st)"
    using chunk_loop_takes_in [of chunkSize overlap s _ st] by (simp add: st_def)
  then have "held s st" by (simp add: held_def)
  then have a: "\<exists>c \<in> set (chunkText text chunkSize overlap). sublist (trim s) c"
    using held_finally chunk_loop_held run by metis
  have b: "\<exists>c \<in> set (chunkText text chunkSize overlap). suffix (trim s) c"
    if "chunkSize < int (length s)"
  proof -
    from suf that have "closing chunkSize s st" by (simp add: closing_def)
    then show ?thesis using closing_finally chunk_loop_closing run by metis
  qed
  have c: "\<exists>c \<in> set (chunkText text chunkSize overlap). \<exists>pre.
             c = trim (pre @ s) \<and>
             overlap_seed (overlap div 10) (chunkText text chunkSize overlap) pre"
    if long: "chunkSize < int (length s)" and solid: "trim s \<noteq> []"
  proof -
    from solid have ne: "s \<noteq> []" by (auto simp: trim_empty)
    have "alone chunkSize (overlap div 10) s st"
      unfolding st_def by (rule chunk_loop_takes_alone [OF long])
    then have "alone chunkSize (overlap div 10) s
        (chunk_loop chunkSize overlap (split_sentences text) ([], []))"
      unfolding run by (rule chunk_loop_alone [OF long ne])
    then show ?thesis using solid by (rule alone_finally)
  qed
  from a b c show ?thesis by blast
qed

text \<open>
  The amended claim C5 at the text \<open>  One two. Three.\<close> with size 5 and overlap 10: the
  first sentence is longer than the size, and trimmed it is the whole first chunk.
\<close>

theorem sentences_kept_whole_witness:
  "''  One two.'' \<in> set (split_sentences ''  One two. Three.'') \<and>
   5 < int (length ''  One two.'') \<and>
   chunkText ''  One two. Three.'' 5 10 = [''One two.'', ''two. Three.''] \<and>
   trim ''  One two.'' = ''One two.'' \<and>
   trim ''  One two.'' \<noteq> [] \<and>
   (\<exists>c \<in> set (chunkText ''  One two. Three.'' 5 10). sublist (trim ''  One two.'') c) \<and>
   (\<exists>c \<in> set (chunkText ''  One two. Three.'' 5 10). suffix (trim ''  One two.'') c) \<and>
   (\<exists>c \<in> set (chunkText ''  One two. Three.'' 5 10). \<exists>pre.
       c = trim (pre @ ''  One two.'') \<and>
       overlap_seed (10 div 10) (chunkText ''  One two. Three.'' 5 10) pre)"
proof -
  have h: "''  One two.'' \<in> set (split_sentences ''  One two. Three.'')"
    by code_simp
  have c: "chunkText ''  One two. Three.'' 5 10 = [''One two.'', ''two. Three.'']"
    by code_simp
  have t: "trim ''  One two.'' = ''One two.''"
    by code_simp
  have l: "5 < int (length ''  One two.'')" by simp
  from t have n: "trim ''  One two.'' \<noteq> []" by simp
  from sentences_kept_whole [OF h, of 5 10] l n have
    "(\<exists>c \<in> set (chunkText ''  One two. Three.'' 5 10). sublist (trim ''  One two.'') c) \<and>
     (\<exists>c \<in> set (chunkText ''  One two. Three.'' 5 10). suffix (trim ''  One two.'') c) \<and>
     (\<exists>c \<in> set (chunkText ''  One two. Three.'' 5 10). \<exists>pre.
       c = trim (pre @ ''  One two.'') \<and>
       overlap_seed (10 div 10) (chunkText ''  One two. Three.'' 5 10) pre)"
    by blast
  with h c t l n show ?thesis by blast
qed

text \<open>
  Claim C5 as it is stated fails at the text \<open> Hi. Bye.\<close>: the first sentence of the split
  begins with the blank, which the trimmed chunk has lost.
\<close>

theorem sentence_counterexample:
  "split_sentences '' Hi. Bye.'' = ['' Hi.'', ''Bye.''] \<and>
   chunkText '' Hi. Bye.'' 3000 500 = [''Hi. Bye.''] \<and>
   \<not> (\<exists>c \<in> set (chunkText '' Hi. Bye.'' 3000 500). sublist '' Hi.'' c)"
  by code_simp

section \<open>Adding a document under a name the collection holds\<close>

lemma findIndex_ge: "- 1 \<le> findIndex p xs"
  by (induction xs) (auto simp: Let_def)

lemma findIndex_absent: "findIndex p xs < 0 \<longleftrightarrow> (\<forall>x \<in> set xs. \<not> p x)"
  using findIndex_ge [of p] by (induction xs) (auto simp: Let_def)

lemma findIndex_first:
  "i < length xs \<Longrightarrow> p (xs ! i) \<Longrightarrow> (\<forall>j < i. \<not> p (xs ! j)) \<Longrightarrow> findIndex p xs = int i"
proof (induction xs arbitrary: i)
  case Nil
  then show ?case by simp
next
  case (Cons x xs)
  show ?case
  proof (cases i)
    case 0
    with Cons.prems show ?thesis by simp
  next
    case (Suc k)
    with Cons.prems have "\<not> p x" by auto
    moreover have "findIndex p xs = int k"
      using Cons.prems Suc by (intro Cons.IH) auto
    ultimately show ?thesis using Suc by (simp add: Let_def)
  qed
qed

lemma findIndex_present:
  "0 \<le> findIndex p xs \<Longrightarrow>
   nat (findIndex p xs) < length xs \<and> p (xs ! nat (findIndex p xs)) \<and>
   (\<forall>j < nat (findIndex p xs). \<not> p (xs ! j))"
proof (induction xs)
  case Nil
  then show ?case by simp
next
  case (Cons x xs)
  show ?case
  proof (cases "p x")
    case True
    then show ?thesis by simp
  next
    case False
    with Cons.prems have ge: "0 \<le> findIndex p xs"
      by (auto simp: Let_def split: if_splits)
    with False have eq: "findIndex p (x # xs) = findIndex p xs + 1"
      by (simp add: Let_def)
    from ge have n: "nat (findIndex p xs + 1) = Suc (nat (findIndex p xs))" by simp
    from Cons.IH [OF ge] False show ?thesis
      unfolding eq n by (auto simp: less_Suc_eq_0_disj)
  qed
qed

lemma first_index_findIndex:
  "first_index name docs i \<Longrightarrow> findIndex (\<lambda>d. fileName d = name) docs = int i"
  unfolding first_index_def by (intro findIndex_first) auto

lemma findIndex_first_index:
  "0 \<le> findIndex (\<lambda>d. fileName d = name) docs \<Longrightarrow>
   first_index name docs (nat (findIndex (\<lambda>d. fileName d = name) docs))"
  using findIndex_present [of "\<lambda>d. fileName d = name" docs] by (simp add: first_index_def)

lemma name_present:
  "name \<in> fileName ` set docs \<longleftrightarrow> 0 \<le> findIndex (\<lambda>d. fileName d = name) docs"
  using findIndex_absent [of "\<lambda>d. fileName d = name" docs] by auto

lemma getDocumentCount_length: "getDocumentCount st u = length (getDocuments st u)"
  by (simp add: getDocumentCount_def getDocuments_def split: option.splits)

lemma getDocumentNames_map: "getDocumentNames st u = map fileName (getDocuments st u)"
  by (simp add: getDocumentNames_def getDocuments_def)

lemma getDocuments_addDocument_replace:
  assumes "first_index name (getDocuments st u) i"
  shows "getDocuments (snd (addDocument st u name y now)) u =
           (getDocuments st u)[i := \<lparr>fileName = name, content = y,
              chunks = chunkText y 3000 500, uploadedAt = now\<rparr>]"
  using first_index_findIndex [OF assms]
  by (simp add: addDocument_def getDocuments_def Let_def)

lemma getDocuments_addDocument_append:
  assumes "name \<notin> set (getDocumentNames st u)"
  shows "getDocuments (snd (addDocument st u name y now)) u =
           getDocuments st u @ [\<lparr>fileName = name, content = y,
              chunks = chunkText y 3000 500, uploadedAt = now\<rparr>]"
proof -
  from assms have "findIndex (\<lambda>d. fileName d = name) (getDocuments st u) < 0"
    using name_present [of name "getDocuments st u"] by (simp add: getDocumentNames_map)
  then show ?thesis
    by (simp add: addDocument_def getDocuments_def Let_def)
qed

lemma totalDocuments_addDocument:
  "totalDocuments (fst (addDocument st u name y now)) =
   getDocumentCount (snd (addDocument st u name y now)) u"
  by (simp add: addDocument_def getDocumentCount_def Let_def)

lemma first_index_after_add:
  "\<exists>i. first_index name (getDocuments (snd (addDocument st u name x now)) u) i"
proof (cases "name \<in> set (getDocumentNames st u)")
  case True
  then have ge: "0 \<le> findIndex (\<lambda>d. fileName d = name) (getDocuments st u)"
    using name_present [of name "getDocuments st u"] by (simp add: getDocumentNames_map)
  let ?i = "nat (findIndex (\<lambda>d. fileName d = name) (getDocuments st u))"
  have fi: "first_index name (getDocuments st u) ?i"
    using findIndex_first_index [OF ge] .
  then have "first_index name (getDocuments (snd (addDocument st u name x now)) u) ?i"
    by (simp add: getDocuments_addDocument_replace [OF fi] first_index_def)
  then show ?thesis ..
next
  case False
  then have "first_index name (getDocuments (snd (addDocument st u name x now)) u)
               (length (getDocuments st u))"
    by (auto simp: getDocuments_addDocument_append first_index_def nth_append
        getDocumentNames_map)
  then show ?thesis ..
qed

text \<open>
  Claim C6. When the collection of the user holds a document of the name, at first index
  \<open>i\<close>, \<open>addDocument\<close> puts the new document at index \<open>i\<close> and leaves every other
  document and the count as they were. After two calls with one name, from any store, the
  second call has left the count and the index of the name as the first call left them,
  and the document there has the second content; from a store where the user has no
  document, the count is 1 and the document at index 0 has the second content.
\<close>

theorem addDocument_overwrites:
  "(first_index name (getDocuments st u) i \<longrightarrow>
      getDocuments (snd (addDocument st u name y now)) u =
        (getDocuments st u)[i := \<lparr>fileName = name, content = y,
           chunks = chunkText y 3000 500, uploadedAt = now\<rparr>] \<and>
      content (getDocuments (snd (addDocument st u name y now)) u ! i) = y \<and>
      getDocumentCount (snd (addDocument st u name y now)) u = getDocumentCount st u \<and>
      totalDocuments (fst (addDocument st u name y now)) = getDocumentCount st u) \<and>
   (\<exists>k. first_index name (getDocuments (snd (addDocument st0 u name x now0)) u) k \<and>
        first_index name
          (getDocuments (snd (addDocument (snd (addDocument st0 u name x now0)) u name y now)) u) k \<and>
        content
          (getDocuments (snd (addDocument (snd (addDocument st0 u name x now0)) u name y now)) u ! k)
          = y) \<and>
   getDocumentCount (snd (addDocument (snd (addDocument st0 u name x now0)) u name y now)) u =
     getDocumentCount (snd (addDocument st0 u name x now0)) u \<and>
   (getDocumentCount st0 u = 0 \<longrightarrow>
      getDocumentCount (snd (addDocument (snd (addDocument st0 u name x now0)) u name y now)) u = 1 \<and>
      content
        (getDocuments (snd (addDocument (snd (addDocument st0 u name x now0)) u name y now)) u ! 0)
        = y)"
proof -
  have replace: "getDocuments (snd (addDocument s u name y now)) u =
        (getDocuments s u)[i := \<lparr>fileName = name, content = y,
           chunks = chunkText y 3000 500, uploadedAt = now\<rparr>] \<and>
      content (getDocuments (snd (addDocument s u name y now)) u ! i) = y \<and>
      first_index name (getDocuments (snd (addDocument s u name y now)) u) i \<and>
      getDocumentCount (snd (addDocument s u name y now)) u = getDocumentCount s u \<and>
      totalDocuments (fst (addDocument s u name y now)) = getDocumentCount s u"
    if "first_index name (getDocuments s u) i" for s i
    using that
    by (simp add: getDocuments_addDocument_replace [OF that] totalDocuments_addDocument
        getDocumentCount_length first_index_def)
  let ?s1 = "snd (addDocument st0 u name x now0)"
  obtain k where k: "first_index name (getDocuments ?s1 u) k"
    using first_index_after_add [of name st0 u x now0] by blast
  note r2 = replace [OF k]
  have fresh: "getDocumentCount ?s1 u = 1 \<and> k = 0" if "getDocumentCount st0 u = 0"
  proof -
    from that have e: "getDocuments st0 u = []" by (simp add: getDocumentCount_length)
    then have "name \<notin> set (getDocumentNames st0 u)" by (simp add: getDocumentNames_map)
    from getDocuments_addDocument_append [OF this] e
    have "length (getDocuments ?s1 u) = 1" by simp
    with k show ?thesis by (simp add: getDocumentCount_length first_index_def)
  qed
  show ?thesis
    using replace [of st i] k r2 fresh by (intro conjI impI exI [of _ k]) auto
qed

text \<open>
  Claim C6 at a collection that holds \<open>b.pdf\<close> and \<open>a.pdf\<close>, and at the empty store.
\<close>

theorem addDocument_overwrites_witness:
  "first_index ''a.pdf''
     (getDocuments
        [1::nat \<mapsto> [\<lparr>fileName = ''b.pdf'', content = ''B.'', chunks = [''B.''], uploadedAt = ''t0''\<rparr>,
                    \<lparr>fileName = ''a.pdf'', content = ''X.'', chunks = [''X.''], uploadedAt = ''t1''\<rparr>]] 1) 1 \<and>
   getDocumentCount (Map.empty :: nat store) 1 = 0 \<and>
   getDocuments (snd (addDocument
        [1::nat \<mapsto> [\<lparr>fileName = ''b.pdf'', content = ''B.'', chunks = [''B.''], uploadedAt = ''t0''\<rparr>,
                    \<lparr>fileName = ''a.pdf'', content = ''X.'', chunks = [''X.''], uploadedAt = ''t1''\<rparr>]]
        1 ''a.pdf'' ''Y.'' ''t2'')) 1 =
     [\<lparr>fileName = ''b.pdf'', content = ''B.'', chunks = [''B.''], uploadedAt = ''t0''\<rparr>,
      \<lparr>fileName = ''a.pdf'', content = ''Y.'', chunks = chunkText ''Y.'' 3000 500,
         uploadedAt = ''t2''\<rparr>] \<and>
   getDocumentCount (snd (addDocument
        [1::nat \<mapsto> [\<lparr>fileName = ''b.pdf'', content = ''B.'', chunks = [''B.''], uploadedAt = ''t0''\<rparr>,
                    \<lparr>fileName = ''a.pdf'', content = ''X.'', chunks = [''X.''], uploadedAt = ''t1''\<rparr>]]
        1 ''a.pdf'' ''Y.'' ''t2'')) 1 = 2 \<and>
   getDocumentCount
     (snd (addDocument (snd (addDocument (Map.empty :: nat store) 1 ''a.pdf'' ''X.'' ''t1''))
        1 ''a.pdf'' ''Y.'' ''t2'')) 1 = 1 \<and>
   content (getDocuments
     (snd (addDocument (snd (addDocument (Map.empty :: nat store) 1 ''a.pdf'' ''X.'' ''t1''))
        1 ''a.pdf'' ''Y.'' ''t2'')) 1 ! 0) = ''Y.''"
proof -
  let ?st = "[1::nat \<mapsto> [\<lparr>fileName = ''b.pdf'', content = ''B.'', chunks = [''B.''], uploadedAt = ''t0''\<rparr>,
                    \<lparr>fileName = ''a.pdf'', content = ''X.'', chunks = [''X.''], uploadedAt = ''t1''\<rparr>]]"
  have h1: "first_index ''a.pdf'' (getDocuments ?st 1) 1"
    by (simp add: first_index_def getDocuments_def)
  have h2: "getDocumentCount (Map.empty :: nat store) 1 = 0"
    by (simp add: getDocumentCount_def)
  have c: "getDocumentCount ?st 1 = 2" "getDocuments ?st 1 =
     [\<lparr>fileName = ''b.pdf'', content = ''B.'', chunks = [''B.''], uploadedAt = ''t0''\<rparr>,
      \<lparr>fileName = ''a.pdf'', content = ''X.'', chunks = [''X.''], uploadedAt = ''t1''\<rparr>]"
    by (simp_all add: getDocumentCount_def getDocuments_def)
  from addDocument_overwrites [of "''a.pdf''" ?st 1 1 "''Y.''" "''t2''" Map.empty "''X.''" "''t1''"]
    h1 h2 c
  show ?thesis by simp
qed

section \<open>Unknown users and unknown names\<close>

lemma deleteDocument_removed:
  assumes "first_index name (getDocuments st u) i"
  shows "deleteDocument st u name =
           (True, st(u \<mapsto> take i (getDocuments st u) @ drop (Suc i) (getDocuments st u)))"
proof -
  from assms have "getDocuments st u \<noteq> []" by (auto simp: first_index_def)
  then obtain docs where d: "st u = Some docs" "getDocuments st u = docs"
    by (cases "st u") (auto simp: getDocuments_def)
  with first_index_findIndex [OF assms] show ?thesis
    by (simp add: deleteDocument_def Let_def)
qed

lemma deleteDocument_absent:
  assumes "name \<notin> set (getDocumentNames st u)"
  shows "deleteDocument st u name = (False, st)"
proof -
  from assms have "findIndex (\<lambda>d. fileName d = name) (getDocuments st u) < 0"
    using name_present [of name "getDocuments st u"] by (simp add: getDocumentNames_map)
  then show ?thesis
    by (auto simp: deleteDocument_def getDocuments_def Let_def split: option.splits)
qed

lemma deleteDocument_present:
  assumes "name \<in> set (getDocumentNames st u)"
  shows "\<exists>i. first_index name (getDocuments st u) i \<and> fst (deleteDocument st u name)"
proof -
  from assms have ge: "0 \<le> findIndex (\<lambda>d. fileName d = name) (getDocuments st u)"
    using name_present [of name "getDocuments st u"] by (simp add: getDocumentNames_map)
  from findIndex_first_index [OF ge] deleteDocument_removed show ?thesis
    by (metis fst_conv)
qed

text \<open>
  Claim C8. For a user the store does not know, \<open>getDocuments\<close> returns the empty
  sequence, the count is 0 and \<open>deleteDocument\<close> returns false and leaves the store.
  \<open>deleteDocument\<close> returns true exactly when the collection of the user holds the name;
  it then removes the document at the first index of the name, and for a name the
  collection does not hold it returns false and leaves the store. \<open>clearDocuments\<close>
  returns true, and after it the count of the user is 0. No method of the store has a
  failing result.
\<close>

theorem unknown_is_no_failure:
  "(st u0 = None \<longrightarrow>
      getDocuments st u0 = [] \<and> getDocumentCount st u0 = 0 \<and>
      deleteDocument st u0 name = (False, st)) \<and>
   (fst (deleteDocument st u name) \<longleftrightarrow> name \<in> set (getDocumentNames st u)) \<and>
   (first_index name (getDocuments st u) i \<longrightarrow>
      getDocuments (snd (deleteDocument st u name)) u =
        take i (getDocuments st u) @ drop (Suc i) (getDocuments st u)) \<and>
   (absent \<notin> set (getDocumentNames st u) \<longrightarrow> deleteDocument st u absent = (False, st)) \<and>
   fst (clearDocuments st u) \<and>
   getDocumentCount (snd (clearDocuments st u)) u = 0 \<and>
   getDocuments (snd (clearDocuments st u)) u = []"
proof -
  have a: "fst (deleteDocument st u name) \<longleftrightarrow> name \<in> set (getDocumentNames st u)"
    using deleteDocument_present [of name st u] deleteDocument_absent [of name st u]
    by (cases "name \<in> set (getDocumentNames st u)") auto
  have b: "getDocuments (snd (deleteDocument st u name)) u =
        take i (getDocuments st u) @ drop (Suc i) (getDocuments st u)"
    if "first_index name (getDocuments st u) i"
    by (simp add: deleteDocument_removed [OF that] getDocuments_def)
  have c: "deleteDocument st u absent = (False, st)" if "absent \<notin> set (getDocumentNames st u)"
    by (simp add: deleteDocument_absent [OF that])
  have d: "getDocuments st u0 = [] \<and> getDocumentCount st u0 = 0 \<and>
      deleteDocument st u0 name = (False, st)" if "st u0 = None"
    using that by (simp add: getDocuments_def getDocumentCount_def deleteDocument_def)
  have e: "fst (clearDocuments st u) \<and> getDocumentCount (snd (clearDocuments st u)) u = 0 \<and>
   getDocuments (snd (clearDocuments st u)) u = []"
    by (simp add: clearDocuments_def getDocumentCount_def getDocuments_def)
  from a b c d e show ?thesis by blast
qed

text \<open>
  Claim C8 at a store that knows user 1 with \<open>a.pdf\<close> and \<open>b.pdf\<close>: user 2 is unknown,
  \<open>a.pdf\<close> is at index 0 and \<open>c.pdf\<close> is an unknown name.
\<close>

theorem unknown_is_no_failure_witness:
  "[1::nat \<mapsto> [\<lparr>fileName = ''a.pdf'', content = ''A.'', chunks = [''A.''], uploadedAt = ''t0''\<rparr>,
                \<lparr>fileName = ''b.pdf'', content = ''B.'', chunks = [''B.''], uploadedAt = ''t1''\<rparr>]] 2 = None \<and>
   first_index ''a.pdf''
     (getDocuments
        [1::nat \<mapsto> [\<lparr>fileName = ''a.pdf'', content = ''A.'', chunks = [''A.''], uploadedAt = ''t0''\<rparr>,
                \<lparr>fileName = ''b.pdf'', content = ''B.'', chunks = [''B.''], uploadedAt = ''t1''\<rparr>]] 1) 0 \<and>
   ''c.pdf'' \<notin> set (getDocumentNames
        [1::nat \<mapsto> [\<lparr>fileName = ''a.pdf'', content = ''A.'', chunks = [''A.''], uploadedAt = ''t0''\<rparr>,
                \<lparr>fileName = ''b.pdf'', content = ''B.'', chunks = [''B.''], uploadedAt = ''t1''\<rparr>]] 1) \<and>
   getDocuments
        [1::nat \<mapsto> [\<lparr>fileName = ''a.pdf'', content = ''A.'', chunks = [''A.''], uploadedAt = ''t0''\<rparr>,
                \<lparr>fileName = ''b.pdf'', content = ''B.'', chunks = [''B.''], uploadedAt = ''t1''\<rparr>]] 2 = [] \<and>
   fst (deleteDocument
        [1::nat \<mapsto> [\<lparr>fileName = ''a.pdf'', content = ''A.'', chunks = [''A.''], uploadedAt = ''t0''\<rparr>,
                \<lparr>fileName = ''b.pdf'', content = ''B.'', chunks = [''B.''], uploadedAt = ''t1''\<rparr>]]
        1 ''a.pdf'') \<and>
   getDocuments (snd (deleteDocument
        [1::nat \<mapsto> [\<lparr>fileName = ''a.pdf'', content = ''A.'', chunks = [''A.''], uploadedAt = ''t0''\<rparr>,
                \<lparr>fileName = ''b.pdf'', content = ''B.'', chunks = [''B.''], uploadedAt = ''t1''\<rparr>]]
        1 ''a.pdf'')) 1 =
     [\<lparr>fileName = ''b.pdf'', content = ''B.'', chunks = [''B.''], uploadedAt = ''t1''\<rparr>] \<and>
   fst (deleteDocument
        [1::nat \<mapsto> [\<lparr>fileName = ''a.pdf'', content = ''A.'', chunks = [''A.''], uploadedAt = ''t0''\<rparr>,
                \<lparr>fileName = ''b.pdf'', content = ''B.'', chunks = [''B.''], uploadedAt = ''t1''\<rparr>]]
        1 ''c.pdf'') = False \<and>
   getDocumentCount (snd (clearDocuments
        [1::nat \<mapsto> [\<lparr>fileName = ''a.pdf'', content = ''A.'', chunks = [''A.''], uploadedAt = ''t0''\<rparr>,
                \<lparr>fileName = ''b.pdf'', content = ''B.'', chunks = [''B.''], uploadedAt = ''t1''\<rparr>]] 1)) 1 = 0"
proof -
  let ?st = "[1::nat \<mapsto> [\<lparr>fileName = ''a.pdf'', content = ''A.'', chunks = [''A.''], uploadedAt = ''t0''\<rparr>,
                \<lparr>fileName = ''b.pdf'', content = ''B.'', chunks = [''B.''], uploadedAt = ''t1''\<rparr>]]"
  have h1: "?st 2 = None" by simp
  have h2: "first_index ''a.pdf'' (getDocuments ?st 1) 0"
    by (simp add: first_index_def getDocuments_def)
  have h3: "''c.pdf'' \<notin> set (getDocumentNames ?st 1)"
    by (simp add: getDocumentNames_def)
  have g: "getDocuments ?st 1 =
     [\<lparr>fileName = ''a.pdf'', content = ''A.'', chunks = [''A.''], uploadedAt = ''t0''\<rparr>,
      \<lparr>fileName = ''b.pdf'', content = ''B.'', chunks = [''B.''], uploadedAt = ''t1''\<rparr>]"
    "''a.pdf'' \<in> set (getDocumentNames ?st 1)"
    by (simp_all add: getDocuments_def getDocumentNames_def)
  from unknown_is_no_failure [of ?st 2 "''a.pdf''" 1 0 "''c.pdf''"] h1 h2 h3 g
  show ?thesis by simp
qed

section \<open>File names stay unique\<close>

lemma distinct_remove_nth:
  "distinct xs \<Longrightarrow> distinct (take i xs @ drop (Suc i) xs)"
proof -
  assume d: "distinct xs"
  have "set (take i xs) \<inter> set (drop (Suc i) xs) \<subseteq> set (take i xs) \<inter> set (drop i xs)"
    using set_drop_subset_set_drop [of i "Suc i" xs] by auto
  with d show ?thesis
    using distinct_append [of "take i xs" "drop i xs"] by auto
qed

lemma names_unique_addDocument:
  assumes "names_unique st" shows "names_unique (snd (addDocument st u name y now))"
proof -
  have "distinct (getDocumentNames (snd (addDocument st u name y now)) v)" for v
  proof (cases "v = u")
    case False
    then have "getDocumentNames (snd (addDocument st u name y now)) v = getDocumentNames st v"
      by (simp add: addDocument_def getDocumentNames_def Let_def)
    with assms show ?thesis by (simp add: names_unique_def)
  next
    case True
    from assms have du: "distinct (map fileName (getDocuments st u))"
      by (simp add: names_unique_def getDocumentNames_map)
    show ?thesis
    proof (cases "name \<in> set (getDocumentNames st u)")
      case present: True
      then have ge: "0 \<le> findIndex (\<lambda>d. fileName d = name) (getDocuments st u)"
        using name_present [of name "getDocuments st u"] by (simp add: getDocumentNames_map)
      let ?i = "nat (findIndex (\<lambda>d. fileName d = name) (getDocuments st u))"
      have fi: "first_index name (getDocuments st u) ?i"
        using findIndex_first_index [OF ge] .
      then have "(map fileName (getDocuments st u))[?i := name] = map fileName (getDocuments st u)"
        by (simp add: first_index_def list_update_same_conv)
      with du True show ?thesis
        by (simp add: getDocumentNames_map getDocuments_addDocument_replace [OF fi] map_update)
    next
      case False
      with du True show ?thesis
        by (simp add: getDocumentNames_map getDocuments_addDocument_append)
    qed
  qed
  then show ?thesis by (simp add: names_unique_def)
qed

lemma names_unique_deleteDocument:
  assumes "names_unique st" shows "names_unique (snd (deleteDocument st u name))"
proof (cases "name \<in> set (getDocumentNames st u)")
  case False
  with assms show ?thesis by (simp add: deleteDocument_absent)
next
  case True
  then obtain i where i: "first_index name (getDocuments st u) i"
    using deleteDocument_present [OF True] by blast
  have "distinct (getDocumentNames (snd (deleteDocument st u name)) v)" for v
  proof (cases "v = u")
    case False
    with assms show ?thesis
      by (simp add: deleteDocument_removed [OF i] getDocumentNames_def names_unique_def)
  next
    case True
    from assms have "distinct (map fileName (getDocuments st u))"
      by (simp add: names_unique_def getDocumentNames_map)
    from distinct_remove_nth [OF this, of i] True show ?thesis
      by (simp add: deleteDocument_removed [OF i] getDocumentNames_def take_map drop_map)
  qed
  then show ?thesis by (simp add: names_unique_def)
qed

lemma names_unique_clearDocuments:
  assumes "names_unique st" shows "names_unique (snd (clearDocuments st u))"
proof -
  have "distinct (getDocumentNames (snd (clearDocuments st u)) v)" for v
    using assms by (cases "v = u") (simp_all add: clearDocuments_def getDocumentNames_def names_unique_def)
  then show ?thesis by (simp add: names_unique_def)
qed

lemma names_unique_store_after:
  "names_unique st \<Longrightarrow> names_unique (store_after op st)"
  by (cases op)
     (simp_all add: names_unique_addDocument names_unique_deleteDocument
        names_unique_clearDocuments)

lemma names_unique_fold:
  "names_unique st \<Longrightarrow> names_unique (fold store_after ops st)"
  by (induction ops arbitrary: st) (simp_all add: names_unique_store_after)

lemma names_unique_empty: "names_unique Map.empty"
  by (simp add: names_unique_def getDocumentNames_def)

text \<open>
  Claim C9. Every call of the store keeps the file names of each collection distinct, so
  after every sequence of calls on the empty store no collection holds two documents of
  one name.
\<close>

theorem fileNames_stay_unique:
  "(names_unique st \<longrightarrow> names_unique (store_after op st)) \<and>
   names_unique (fold store_after ops Map.empty)"
  using names_unique_store_after [of st op] names_unique_fold [OF names_unique_empty, of ops]
  by blast

text \<open>
  Claim C9 at a store that holds \<open>a.pdf\<close>, for a second \<open>addDocument\<close> of that name, and
  at a sequence of five calls.
\<close>

theorem fileNames_stay_unique_witness:
  "names_unique
     [1::nat \<mapsto> [\<lparr>fileName = ''a.pdf'', content = ''A.'', chunks = [''A.''], uploadedAt = ''t0''\<rparr>]] \<and>
   names_unique (store_after (AddDocument 1 ''a.pdf'' ''Y.'' ''t1'')
     [1::nat \<mapsto> [\<lparr>fileName = ''a.pdf'', content = ''A.'', chunks = [''A.''], uploadedAt = ''t0''\<rparr>]]) \<and>
   getDocumentNames (store_after (AddDocument 1 ''a.pdf'' ''Y.'' ''t1'')
     [1::nat \<mapsto> [\<lparr>fileName = ''a.pdf'', content = ''A.'', chunks = [''A.''], uploadedAt = ''t0''\<rparr>]]) 1
     = [''a.pdf''] \<and>
   names_unique (fold store_after
     [AddDocument (1::nat) ''a.pdf'' ''X.'' ''t0'', AddDocument 1 ''b.pdf'' ''B.'' ''t1'',
      AddDocument 1 ''a.pdf'' ''Y.'' ''t2'', DeleteDocument 1 ''b.pdf'', ClearDocuments 2]
     Map.empty)"
proof -
  let ?st = "[1::nat \<mapsto> [\<lparr>fileName = ''a.pdf'', content = ''A.'', chunks = [''A.''], uploadedAt = ''t0''\<rparr>]]"
  have h: "names_unique ?st"
    by (simp add: names_unique_def getDocumentNames_def)
  have n: "getDocumentNames (store_after (AddDocument 1 ''a.pdf'' ''Y.'' ''t1'') ?st) 1 = [''a.pdf'']"
    by (simp add: getDocumentNames_def addDocument_def Let_def)
  from fileNames_stay_unique [of ?st "AddDocument 1 ''a.pdf'' ''Y.'' ''t1''"
      "[AddDocument (1::nat) ''a.pdf'' ''X.'' ''t0'', AddDocument 1 ''b.pdf'' ''B.'' ''t1'',
        AddDocument 1 ''a.pdf'' ''Y.'' ''t2'', DeleteDocument 1 ''b.pdf'', ClearDocuments 2]"] h n
  show ?thesis by blast
qed

section \<open>Collections are isolated\<close>

text \<open>
  Claim C10. A call for one user leaves the collection of every other user as it was, and
  the five reading methods leave the whole store as it was.
\<close>

theorem collections_isolated:
  "(target op \<noteq> v \<longrightarrow>
      store_after op st v = st v \<and> getDocuments (store_after op st) v = getDocuments st v) \<and>
   (is_read rd \<longrightarrow> store_after rd st = st)"
proof -
  have "store_after op st v = st v" if "target op \<noteq> v"
    using that
    by (cases op)
       (simp_all add: addDocument_def deleteDocument_def clearDocuments_def Let_def
          split: option.splits)
  moreover have "store_after rd st = st" if "is_read rd"
    using that by (cases rd) simp_all
  ultimately show ?thesis by (simp add: getDocuments_def)
qed

text \<open>
  Claim C10 at \<open>addDocument\<close> for user 1 seen from user 2, and at \<open>searchDocuments\<close>.
\<close>

theorem collections_isolated_witness:
  "target (AddDocument (1::nat) ''a.pdf'' ''Y.'' ''t1'') \<noteq> 2 \<and>
   is_read (SearchDocuments (1::nat) ''annual report'') \<and>
   getDocuments (store_after (AddDocument 1 ''a.pdf'' ''Y.'' ''t1'')
     [2::nat \<mapsto> [\<lparr>fileName = ''a.pdf'', content = ''A.'', chunks = [''A.''], uploadedAt = ''t0''\<rparr>]]) 2 =
     [\<lparr>fileName = ''a.pdf'', content = ''A.'', chunks = [''A.''], uploadedAt = ''t0''\<rparr>] \<and>
   store_after (SearchDocuments 1 ''annual report'')
     [2::nat \<mapsto> [\<lparr>fileName = ''a.pdf'', content = ''A.'', chunks = [''A.''], uploadedAt = ''t0''\<rparr>]] =
     [2::nat \<mapsto> [\<lparr>fileName = ''a.pdf'', content = ''A.'', chunks = [''A.''], uploadedAt = ''t0''\<rparr>]]"
proof -
  let ?st = "[2::nat \<mapsto> [\<lparr>fileName = ''a.pdf'', content = ''A.'', chunks = [''A.''], uploadedAt = ''t0''\<rparr>]]"
  have h1: "target (AddDocument (1::nat) ''a.pdf'' ''Y.'' ''t1'') \<noteq> 2" by simp
  have h2: "is_read (SearchDocuments (1::nat) ''annual report'')" by simp
  have g: "getDocuments ?st 2 =
     [\<lparr>fileName = ''a.pdf'', content = ''A.'', chunks = [''A.''], uploadedAt = ''t0''\<rparr>]"
    by (simp add: getDocuments_def)
  from collections_isolated [of "AddDocument (1::nat) ''a.pdf'' ''Y.'' ''t1''" 2 ?st
      "SearchDocuments 1 ''annual report''"] h1 h2 g
  show ?thesis by (simp del: store_after.simps)
qed


section \<open>The budget of the context\<close>

lemma build_context_closed_form:
  "build_context m ds (ctx, srcs) =
     (ctx @ concat (map (\<lambda>d. header (fileName d) @ included_body m d) ds),
      srcs @ map fileName ds)"
  by (induction ds arbitrary: ctx srcs) (simp_all add: included_body_def Let_def)

lemma getAllContent_map:
  "getAllContent st u =
     map (\<lambda>d. \<lparr>fileName = fileName d, content = content d\<rparr>) (getDocuments st u)"
  by (simp add: getAllContent_def getDocuments_def)

lemma generateAnswer_closed_form:
  assumes "1 \<le> getDocumentCount st u"
  shows "generateAnswer st u =
       AskModel
         (concat (map (\<lambda>d. header (fileName d) @
                     included_body (maxTotalContext div getDocumentCount st u) d)
            (getDocuments st u)))
         (getDocumentNames st u)"
proof -
  from assms have "getDocuments st u \<noteq> []" by (auto simp: getDocumentCount_length)
  then show ?thesis
    by (simp add: generateAnswer_def getAllContent_map build_context_closed_form
        getDocumentCount_length getDocumentNames_map included_body_def comp_def Let_def
        cong: if_cong)
qed

lemma length_long_text: "length long_text = 50000"
  by (simp only: long_text_def length_replicate)

text \<open>
  Claim C7. For a user with at least one document, the context is the concatenation, in
  collection order, of a header and a body for each document, under the budget
  \<open>floor(100000 / documentCount)\<close> for one document: a content longer than the budget is
  cut to its first characters up to the budget and followed by the truncation marker, any
  other content is included whole; the sources are the file names of all documents. For
  three documents of 50000 characters each, every body is the first 33333 characters and
  the marker, and the sources are the three names.
\<close>

theorem context_budget:
  "(1 \<le> getDocumentCount st u \<longrightarrow>
      generateAnswer st u =
        AskModel
          (concat (map (\<lambda>d. header (fileName d) @
                      included_body (maxTotalContext div getDocumentCount st u) d)
             (getDocuments st u)))
          (getDocumentNames st u)) \<and>
   maxTotalContext = 100000 \<and>
   (length (content d) \<le> m \<longrightarrow> included_body m d = content d) \<and>
   (m < length (content d') \<longrightarrow>
      included_body m d' = take m (content d') @ truncation_marker) \<and>
   (getDocumentCount st3 u = 3 \<and> (\<forall>d \<in> set (getDocuments st3 u). length (content d) = 50000) \<longrightarrow>
      generateAnswer st3 u =
        AskModel
          (concat (map (\<lambda>d. header (fileName d) @ take 33333 (content d) @ truncation_marker)
             (getDocuments st3 u)))
          (getDocumentNames st3 u) \<and>
      (\<forall>d \<in> set (getDocuments st3 u). length (take 33333 (content d)) = 33333))"
proof -
  have three: "generateAnswer st3 u =
        AskModel
          (concat (map (\<lambda>d. header (fileName d) @ take 33333 (content d) @ truncation_marker)
             (getDocuments st3 u)))
          (getDocumentNames st3 u) \<and>
      (\<forall>d \<in> set (getDocuments st3 u). length (take 33333 (content d)) = 33333)"
    if n: "getDocumentCount st3 u = 3"
      and len: "\<forall>d \<in> set (getDocuments st3 u). length (content d) = 50000"
  proof -
    have "maxTotalContext div getDocumentCount st3 u = 33333"
      by (simp add: n maxTotalContext_def)
    then have "included_body (maxTotalContext div getDocumentCount st3 u) d =
        take 33333 (content d) @ truncation_marker"
      if "d \<in> set (getDocuments st3 u)" for d
      using len that by (simp add: included_body_def)
    then have eq: "map (\<lambda>d. header (fileName d) @
                      included_body (maxTotalContext div getDocumentCount st3 u) d)
             (getDocuments st3 u) =
          map (\<lambda>d. header (fileName d) @ take 33333 (content d) @ truncation_marker)
             (getDocuments st3 u)"
      by simp
    have ga: "generateAnswer st3 u =
        AskModel
          (concat (map (\<lambda>d. header (fileName d) @
                      included_body (maxTotalContext div getDocumentCount st3 u) d)
             (getDocuments st3 u)))
          (getDocumentNames st3 u)"
      by (rule generateAnswer_closed_form) (simp add: n)
    show ?thesis unfolding ga eq using len by simp
  qed
  show ?thesis
    using generateAnswer_closed_form [of st u] three
    by (simp add: maxTotalContext_def included_body_def)
qed

text \<open>
  Claim C7 at a store with three documents of 50000 characters each.
\<close>

theorem context_budget_witness:
  "1 \<le> getDocumentCount
      [1::nat \<mapsto> [\<lparr>fileName = ''a.pdf'', content = long_text, chunks = [long_text], uploadedAt = ''t0''\<rparr>,
                   \<lparr>fileName = ''b.pdf'', content = long_text, chunks = [long_text], uploadedAt = ''t1''\<rparr>,
                   \<lparr>fileName = ''c.pdf'', content = long_text, chunks = [long_text], uploadedAt = ''t2''\<rparr>]] 1 \<and>
   length (content \<lparr>fileName = ''s.pdf'', content = ''short''\<rparr>) \<le> 33333 \<and>
   33333 < length (content \<lparr>fileName = ''a.pdf'', content = long_text\<rparr>) \<and>
   getDocumentCount
      [1::nat \<mapsto> [\<lparr>fileName = ''a.pdf'', content = long_text, chunks = [long_text], uploadedAt = ''t0''\<rparr>,
                   \<lparr>fileName = ''b.pdf'', content = long_text, chunks = [long_text], uploadedAt = ''t1''\<rparr>,
                   \<lparr>fileName = ''c.pdf'', content = long_text, chunks = [long_text], uploadedAt = ''t2''\<rparr>]] 1 = 3 \<and>
   included_body 33333 \<lparr>fileName = ''s.pdf'', content = ''short''\<rparr> = ''short'' \<and>
   included_body 33333 \<lparr>fileName = ''a.pdf'', content = long_text\<rparr> =
     take 33333 long_text @ truncation_marker \<and>
   generateAnswer
      [1::nat \<mapsto> [\<lparr>fileName = ''a.pdf'', content = long_text, chunks = [long_text], uploadedAt = ''t0''\<rparr>,
                   \<lparr>fileName = ''b.pdf'', content = long_text, chunks = [long_text], uploadedAt = ''t1''\<rparr>,
                   \<lparr>fileName = ''c.pdf'', content = long_text, chunks = [long_text], uploadedAt = ''t2''\<rparr>]] 1 =
     AskModel
       (header ''a.pdf'' @ take 33333 long_text @ truncation_marker @
        header ''b.pdf'' @ take 33333 long_text @ truncation_marker @
        header ''c.pdf'' @ take 33333 long_text @ truncation_marker)
       [''a.pdf'', ''b.pdf'', ''c.pdf''] \<and>
   length (take 33333 long_text) = 33333"
proof -
  let ?st = "[1::nat \<mapsto> [\<lparr>fileName = ''a.pdf'', content = long_text, chunks = [long_text], uploadedAt = ''t0''\<rparr>,
                   \<lparr>fileName = ''b.pdf'', content = long_text, chunks = [long_text], uploadedAt = ''t1''\<rparr>,
                   \<lparr>fileName = ''c.pdf'', content = long_text, chunks = [long_text], uploadedAt = ''t2''\<rparr>]]"
  have n: "getDocumentCount ?st 1 = 3" by (simp add: getDocumentCount_def)
  have g: "getDocuments ?st 1 =
     [\<lparr>fileName = ''a.pdf'', content = long_text, chunks = [long_text], uploadedAt = ''t0''\<rparr>,
      \<lparr>fileName = ''b.pdf'', content = long_text, chunks = [long_text], uploadedAt = ''t1''\<rparr>,
      \<lparr>fileName = ''c.pdf'', content = long_text, chunks = [long_text], uploadedAt = ''t2''\<rparr>]"
    by (simp add: getDocuments_def)
  have names: "getDocumentNames ?st 1 = [''a.pdf'', ''b.pdf'', ''c.pdf'']"
    by (simp add: getDocumentNames_def)
  have l: "\<forall>d \<in> set (getDocuments ?st 1). length (content d) = 50000"
    by (simp add: getDocuments_def length_long_text)
  note inst = context_budget [of ?st 1 "\<lparr>fileName = ''s.pdf'', content = ''short''\<rparr>" 33333
      "\<lparr>fileName = ''a.pdf'', content = long_text\<rparr>" ?st]
  from inst n l have a: "generateAnswer ?st 1 =
        AskModel
          (concat (map (\<lambda>d. header (fileName d) @ take 33333 (content d) @ truncation_marker)
             (getDocuments ?st 1)))
          (getDocumentNames ?st 1)"
    by blast
  from inst have b: "included_body 33333 \<lparr>fileName = ''s.pdf'', content = ''short''\<rparr> = ''short''"
    by simp
  from inst have c: "included_body 33333 \<lparr>fileName = ''a.pdf'', content = long_text\<rparr> =
     take 33333 long_text @ truncation_marker"
    by (simp add: length_long_text)
  show ?thesis
    using a b c n
    by (simp add: getDocuments_def getDocumentNames_def getDocumentCount_def length_long_text)
qed


section \<open>The search of a pattern in a text\<close>

text \<open>
  A matcher never ends before the index where it started, nor beyond the text (backward,
  never after that index). So the test \<open>moved\<close> of a repetition is the test that the index
  has changed, and the loop of \<open>match\<close> moves \<open>lastIndex\<close> one further exactly after an
  empty match.
\<close>

lemma matcher_Repeat_cases:
  assumes "y \<in> set (matcher (Repeat a mn mx greedy parenIndex parenCount) forward input x)"
    and "mx \<noteq> Some 0"
  shows "y = x \<or>
    (\<exists>z \<in> set (matcher a forward input (fst x, clear_captures parenIndex parenCount (snd x))).
       \<not> (mn = 0 \<and> \<not> moved forward input x z) \<and>
       y \<in> set (matcher (Repeat a (mn - 1) (map_option (\<lambda>m. m - 1) mx) greedy parenIndex parenCount)
                  forward input z))"
proof -
  define R where
    "R = matcher (Repeat a (mn - 1) (map_option (\<lambda>m. m - 1) mx) greedy parenIndex parenCount) forward input"
  have "matcher (Repeat a mn mx greedy parenIndex parenCount) forward input x =
     (let again =
              concat (map (\<lambda>y. if mn = 0 \<and> \<not> moved forward input x y then [] else R y)
                        (matcher a forward input (fst x, clear_captures parenIndex parenCount (snd x))))
        in if mn \<noteq> 0 then again else if greedy then again @ [x] else x # again)"
    unfolding R_def by (subst matcher.simps(9)) (rule if_not_P, rule assms(2))
  with assms(1) have "y \<in> set (let again =
              concat (map (\<lambda>y. if mn = 0 \<and> \<not> moved forward input x y then [] else R y)
                        (matcher a forward input (fst x, clear_captures parenIndex parenCount (snd x))))
        in if mn \<noteq> 0 then again else if greedy then again @ [x] else x # again)"
    by simp
  then have "y = x \<or>
    (\<exists>z \<in> set (matcher a forward input (fst x, clear_captures parenIndex parenCount (snd x))).
       \<not> (mn = 0 \<and> \<not> moved forward input x z) \<and> y \<in> set (R z))"
    by (auto simp: Let_def split: if_splits)
  then show ?thesis unfolding R_def .
qed

lemma matcher_bounds:
  "y \<in> set (matcher nd forward input x) \<Longrightarrow> fst x \<le> length input \<Longrightarrow>
   fst y \<le> length input \<and> (if forward then fst x \<le> fst y else fst y \<le> fst x)"
proof (induction nd forward input x arbitrary: y rule: matcher.induct)
  case (1 forward input x)
  then show ?case by simp
next
  case (2 k forward input x)
  then show ?case by (auto simp: CharacterSetMatcher_def Let_def split: if_splits)
next
  case (3 forward input x)
  then show ?case by (auto simp: CharacterSetMatcher_def Let_def split: if_splits)
next
  case (4 invert items forward input x)
  then show ?case by (auto simp: CharacterSetMatcher_def Let_def split: if_splits)
next
  case (5 a b forward input x)
  show ?case
  proof (cases forward)
    case True
    with 5(5) obtain z where z: "z \<in> set (matcher a forward input x)"
      and y: "y \<in> set (matcher b forward input z)" by auto
    from 5(1) [OF True z 5(6)] 5(2) [OF True z y] True show ?thesis by auto
  next
    case False
    with 5(5) obtain z where z: "z \<in> set (matcher b forward input x)"
      and y: "y \<in> set (matcher a forward input z)" by auto
    from 5(3) [OF False z 5(6)] 5(4) [OF False z y] False show ?thesis by auto
  qed
next
  case (6 a b forward input x)
  from 6(3) have "y \<in> set (matcher a forward input x) \<or> y \<in> set (matcher b forward input x)"
    by simp
  then show ?case
  proof
    assume "y \<in> set (matcher a forward input x)"
    then show ?thesis using 6(4) by (rule 6(1))
  next
    assume "y \<in> set (matcher b forward input x)"
    then show ?thesis using 6(4) by (rule 6(2))
  qed
next
  case (7 k a forward input x)
  then show ?case by auto
next
  case (8 k forward input x)
  then show ?case
    by (auto simp: BackreferenceMatcher_def Let_def split: if_splits option.splits)
next
  case (9 a mn mx greedy parenIndex parenCount forward input x)
  show ?case
  proof (cases "mx = Some 0")
    case True
    have "matcher (Repeat a mn mx greedy parenIndex parenCount) forward input x = [x]"
      by (subst matcher.simps(9)) (rule if_P, rule True)
    with 9(3,4) show ?thesis by simp
  next
    case False
    let ?x = "(fst x, clear_captures parenIndex parenCount (snd x))"
    from matcher_Repeat_cases [OF 9(3) False] consider "y = x"
      | z where "z \<in> set (matcher a forward input ?x)"
          "\<not> (mn = 0 \<and> \<not> moved forward input x z)"
          "y \<in> set (matcher (Repeat a (mn - 1) (map_option (\<lambda>m. m - 1) mx) greedy parenIndex parenCount)
                    forward input z)"
      by blast
    then show ?thesis
    proof cases
      case 1
      with 9(4) show ?thesis by simp
    next
      case 2
      from 9(1) [OF False 2(1)] 9(4) have b1: "fst z \<le> length input \<and>
          (if forward then fst x \<le> fst z else fst z \<le> fst x)" by (cases forward) simp_all
      from b1 have b2: "fst z \<le> length input" by simp
      from 9(2) [OF False 2(1) 2(2) 2(3) b2] b1 show ?thesis by (cases forward) simp_all
    qed
  qed
next
  case (10 forward input x)
  then show ?case by (auto split: if_splits)
next
  case (11 forward input x)
  then show ?case by (auto split: if_splits)
next
  case (12 positive forward input x)
  then show ?case by (auto split: if_splits)
next
  case (13 ahead neg a forward input x)
  then show ?case by (auto split: if_splits list.splits)
qed

lemma moved_iff:
  assumes "y \<in> set (matcher a forward input (fst x, cap))" and "fst x \<le> length input"
  shows "moved forward input x y \<longleftrightarrow> fst y \<noteq> fst x"
  using matcher_bounds [OF assms(1)] assms(2) by (auto simp: moved_def)

lemma count_from_next:
  assumes "matcher nd True input (i, cap) = y # ys" and "i \<le> length input"
  shows "(if fst y \<le> i then Suc i else fst y) = (if fst y = i then Suc i else fst y)"
    and "fst y \<le> length input"
  using matcher_bounds [of y nd True input "(i, cap)"] assms by auto

section \<open>Words without syntax characters\<close>

text \<open>
  A word without a character that has a meaning in a pattern is read as the sequence of
  its characters, and its matches in a text are the occurrences of the word, compared
  without regard to case and counted from left to right without overlap.
\<close>

lemma plain_code:
  assumes "\<not> syntax_char c"
  shows "(of_char c :: nat) \<notin> {92, 94, 36, 46, 42, 43, 63, 40, 41, 91, 93, 123, 125, 124}"
proof -
  have "(of_char c :: nat) = of_char d \<Longrightarrow> c = d" for d by simp
  from this [of "CHR 0x5C"] this [of "CHR ''^''"] this [of "CHR ''$''"] this [of "CHR ''.''"]
    this [of "CHR ''*''"] this [of "CHR ''+''"] this [of "CHR ''?''"] this [of "CHR ''(''"]
    this [of "CHR '')''"] this [of "CHR ''[''"] this [of "CHR '']''"] this [of "CHR ''{''"]
    this [of "CHR ''}''"] this [of "CHR ''|''"] assms
  show ?thesis by (auto simp: syntax_char_def)
qed

lemma scan_groups_plain:
  "\<forall>c \<in> set p. c \<noteq> 92 \<and> c \<noteq> 91 \<and> c \<noteq> 40 \<Longrightarrow> scan_groups Outside p = []"
  by (induction p) simp_all

lemma quantifier_plain:
  "(case s of [] \<Rightarrow> True | c # r \<Rightarrow> c \<noteq> 42 \<and> c \<noteq> 43 \<and> c \<noteq> 63 \<and> c \<noteq> 123) \<Longrightarrow>
   quantifier s = Inr (None, 0)"
  by (cases s) (simp_all add: quantifier_def)

lemma parse_step_plain:
  assumes "c \<notin> {92, 94, 36, 46, 42, 43, 63, 40, 41, 91, 123, 124}"
    and "case s of [] \<Rightarrow> True | c # r \<Rightarrow> c \<noteq> 42 \<and> c \<noteq> 43 \<and> c \<noteq> 63 \<and> c \<noteq> 123"
  shows "parse_step names stack (kind, i, alts, terms) ng c s =
     Inr (stack, (kind, i, alts, terms @ [Chr c]), ng, 0)"
  using assms
  by (simp add: parse_step_def atom_at_def attach_def quantifier_plain add_term_def)

lemma parse_plain:
  "\<forall>c \<in> set p. c \<notin> {92, 94, 36, 46, 42, 43, 63, 40, 41, 91, 123, 124} \<Longrightarrow>
   parse names [] (kind, i, alts, terms) ng p = Inr (alt_of (alts @ [seq_of (terms @ map Chr p)]))"
proof (induction p arbitrary: terms)
  case Nil
  then show ?case by simp
next
  case (Cons c p)
  have "case p of [] \<Rightarrow> True | c # r \<Rightarrow> c \<noteq> 42 \<and> c \<noteq> 43 \<and> c \<noteq> 63 \<and> c \<noteq> 123"
    using Cons.prems by (cases p) auto
  with Cons.prems have "parse_step names [] (kind, i, alts, terms) ng c p =
     Inr ([], (kind, i, alts, terms @ [Chr c]), ng, 0)"
    by (intro parse_step_plain) auto
  with Cons.IH [of "terms @ [Chr c]"] Cons.prems show ?case by simp
qed

lemma RegExp_gi_plain:
  assumes "plain_word w"
  shows "RegExp_gi w = Inr (seq_of (map Chr (codes w)), 0)"
proof -
  have p: "\<forall>c \<in> set (codes w). c \<notin> {92, 94, 36, 46, 42, 43, 63, 40, 41, 91, 123, 124}"
    using assms plain_code by (auto simp: plain_word_def list_all_iff codes_def)
  then have "scan_groups Outside (codes w) = []"
    by (intro scan_groups_plain) auto
  with parse_plain [OF p, of "[]" Top 0 "[]" "[]" 0] show ?thesis
    by (simp add: RegExp_gi_def)
qed


lemma code_lower:
  "(of_char (toLowerCase_char c) :: nat) =
     (if 65 \<le> (of_char c :: nat) \<and> (of_char c :: nat) \<le> 90 then of_char c + 32 else of_char c)"
  by (simp add: toLowerCase_char_def Let_def)

lemma canon_lower:
  "Canonicalize (of_char a) = Canonicalize (of_char b) \<longleftrightarrow> toLowerCase_char a = toLowerCase_char b"
proof -
  have ar: "(if 65 \<le> n \<and> n \<le> 90 then n + 32 else n) = (if 65 \<le> m \<and> m \<le> 90 then m + 32 else m) \<longleftrightarrow>
      (if 97 \<le> n \<and> n \<le> 122 then n - 32 else n) = (if 97 \<le> m \<and> m \<le> 122 then m - 32 else m)"
    for n m :: nat
    by (simp split: if_splits) arith
  have "toLowerCase_char a = toLowerCase_char b \<longleftrightarrow>
      (of_char (toLowerCase_char a) :: nat) = of_char (toLowerCase_char b)"
    by simp
  also have "\<dots> \<longleftrightarrow> Canonicalize (of_char a) = Canonicalize (of_char b)"
    unfolding code_lower Canonicalize_def by (rule ar)
  finally show ?thesis by simp
qed

lemma canon_lower_list:
  "map Canonicalize (codes u) = map Canonicalize (codes v) \<longleftrightarrow> toLowerCase u = toLowerCase v"
proof (induction u arbitrary: v)
  case Nil
  then show ?case by (auto simp: codes_def toLowerCase_def)
next
  case (Cons a u)
  then show ?case by (cases v) (auto simp: codes_def toLowerCase_def canon_lower)
qed

lemma matcher_Chr:
  "matcher (Chr k) True input (i, cap) =
     (if i < length input \<and> Canonicalize (of_char (input ! i)) = Canonicalize k then [(Suc i, cap)] else [])"
  by (simp add: CharacterSetMatcher_def)

lemma matcher_literal:
  "i \<le> length input \<Longrightarrow>
   matcher (seq_of (map Chr ks)) True input (i, cap) =
     (if length ks \<le> length input - i \<and>
         map Canonicalize (codes (take (length ks) (drop i input))) = map Canonicalize ks
      then [(i + length ks, cap)] else [])"
proof (induction ks arbitrary: i)
  case Nil
  then show ?case by (simp add: codes_def)
next
  case (Cons k ks)
  show ?case
  proof (cases "i < length input")
    case False
    with Cons.prems have "i = length input" by simp
    then show ?thesis by (cases ks) (simp_all add: CharacterSetMatcher_def)
  next
    case True
    then have dr: "drop i input = input ! i # drop (Suc i) input"
      by (simp add: Cons_nth_drop_Suc)
    from True have le: "Suc i \<le> length input" by simp
    show ?thesis
    proof (cases ks)
      case Nil
      with True show ?thesis by (auto simp: CharacterSetMatcher_def dr codes_def)
    next
      case (Cons k' ks')
      have "matcher (seq_of (map Chr (k # ks))) True input (i, cap) =
          concat (map (matcher (seq_of (map Chr ks)) True input) (matcher (Chr k) True input (i, cap)))"
        by (simp add: Cons)
      also have "\<dots> = (if Canonicalize (of_char (input ! i)) = Canonicalize k
          then matcher (seq_of (map Chr ks)) True input (Suc i, cap) else [])"
        using True by (simp add: CharacterSetMatcher_def)
      finally show ?thesis
        using Cons.IH [OF le] True by (auto simp: dr codes_def)
    qed
  qed
qed

lemma prefix_take: "prefix u v \<longleftrightarrow> length u \<le> length v \<and> u = take (length u) v"
  by (metis prefix_def append_eq_conv_conj take_is_prefix prefix_length_le)

lemma literal_prefix:
  "length w \<le> length s \<and> map Canonicalize (codes (take (length w) s)) = map Canonicalize (codes w)
   \<longleftrightarrow> prefix (toLowerCase w) (toLowerCase s)"
proof -
  have len: "length (toLowerCase u) = length u" for u by (simp add: toLowerCase_def)
  have tk: "take n (toLowerCase s) = toLowerCase (take n s)" for n
    by (simp add: toLowerCase_def take_map)
  have "prefix (toLowerCase w) (toLowerCase s) \<longleftrightarrow>
      length w \<le> length s \<and> toLowerCase w = toLowerCase (take (length w) s)"
    using prefix_take [of "toLowerCase w" "toLowerCase s"] by (simp only: len tk)
  then show ?thesis by (auto simp: canon_lower_list)
qed

lemma count_from_literal:
  assumes "w \<noteq> []"
  shows "i \<le> length t \<Longrightarrow>
    count_from (seq_of (map Chr (codes w))) 0 t i = occurrences w (drop i t)"
proof (induction "length t - i" arbitrary: i rule: less_induct)
  case less
  let ?nd = "seq_of (map Chr (codes w))"
  have lw: "length (codes w) = length w" by (simp add: codes_def)
  have m: "matcher ?nd True t (i, []) =
     (if prefix (toLowerCase w) (toLowerCase (drop i t)) then [(i + length w, [])] else [])"
    using matcher_literal [OF less.prems, of "codes w" "[]"] literal_prefix [of w "drop i t"]
    by (simp add: lw)
  show ?case
  proof (cases "i < length t")
    case False
    with less.prems have "i = length t" by simp
    with assms m show ?thesis
      by (subst count_from.simps) (simp add: toLowerCase_def)
  next
    case True
    then have dr: "drop i t = t ! i # drop (Suc i) t"
      by (simp add: Cons_nth_drop_Suc)
    show ?thesis
    proof (cases "prefix (toLowerCase w) (toLowerCase (drop i t))")
      case False
      have "count_from ?nd 0 t i = count_from ?nd 0 t (Suc i)"
        using True False by (subst count_from.simps) (simp add: m)
      also have "\<dots> = occurrences w (drop (Suc i) t)"
        using True by (intro less.hyps) auto
      finally show ?thesis using False by (simp add: dr)
    next
      case pre: True
      then have "length w \<le> length (drop i t)"
        using prefix_length_le [of "toLowerCase w" "toLowerCase (drop i t)"]
        by (simp add: toLowerCase_def)
      with less.prems have bound: "i + length w \<le> length t" by simp
      have pos: "0 < length w" using assms by simp
      have dec: "length t - (i + length w) < length t - i" using True pos by linarith
      have "count_from ?nd 0 t i = Suc (count_from ?nd 0 t (i + length w))"
        using True pre pos by (subst count_from.simps) (simp add: m)
      also have "count_from ?nd 0 t (i + length w) = occurrences w (drop (i + length w) t)"
        by (rule less.hyps [OF dec bound])
      also have "drop (i + length w) t = drop (length w - 1) (drop (Suc i) t)"
      proof -
        have "length w - 1 + Suc i = i + length w" using pos by linarith
        then show ?thesis by (simp only: drop_drop)
      qed
      finally show ?thesis using pre assms by (simp add: dr)
    qed
  qed
qed

lemma count_matches_plain:
  "w \<noteq> [] \<Longrightarrow> count_matches (seq_of (map Chr (codes w)), 0) t = occurrences w t"
  using count_from_literal [of w 0 t] by (simp add: count_matches_def)

section \<open>The ranking of the search\<close>

lemma insert_sorted_insort_key:
  "insert_sorted (\<lambda>a b. score b - score a) x xs = insort_key (\<lambda>r. - score r) x xs"
  by (induction xs) auto

lemma array_sort_sort_key:
  "array_sort (\<lambda>a b. score b - score a) xs = sort_key (\<lambda>r. - score r) xs"
  by (induction xs) (simp_all add: array_sort_def sort_key_def insert_sorted_insort_key)

lemma RegExp_gi_error:
  "RegExp_gi w = Inl e \<Longrightarrow> \<exists>c \<in> set w. syntax_char c"
proof (rule ccontr)
  assume e: "RegExp_gi w = Inl e" and "\<not> (\<exists>c \<in> set w. syntax_char c)"
  then have "plain_word w" by (simp add: plain_word_def list_all_iff)
  from RegExp_gi_plain [OF this] e show False by simp
qed

lemma count_words_error:
  "count_words t ws s = Inl e \<Longrightarrow> \<exists>w \<in> set ws. \<exists>c \<in> set w. syntax_char c"
  by (induction ws arbitrary: s) (auto split: sum.splits dest: RegExp_gi_error)

lemma count_words_plain:
  "\<forall>w \<in> set ws. plain_word w \<Longrightarrow> \<exists>n. count_words t ws s = Inr n"
  by (induction ws arbitrary: s) (auto simp: RegExp_gi_plain)

lemma calculateRelevance_error:
  "calculateRelevance t ws = Inl e \<Longrightarrow> \<exists>w \<in> set ws. \<exists>c \<in> set w. syntax_char c"
  by (auto simp: calculateRelevance_def split: sum.splits dest: count_words_error)

lemma calculateRelevance_plain:
  "\<forall>w \<in> set ws. plain_word w \<Longrightarrow> \<exists>n. calculateRelevance t ws = Inr n"
  using count_words_plain [of ws t 0] by (auto simp: calculateRelevance_def)

lemma search_chunks_result:
  "search_chunks qw name cs rs = Inr rs' \<Longrightarrow> rs' = rs @ concat (map (scored qw name) cs)"
proof (induction cs arbitrary: rs)
  case Nil
  then show ?case by simp
next
  case (Cons c cs)
  from Cons.prems obtain sc where sc: "calculateRelevance (toLowerCase c) qw = Inr sc"
    and run: "search_chunks qw name cs (rs @ scored qw name c) = Inr rs'"
    by (auto simp: scored_def Let_def split: sum.splits if_splits)
  from Cons.IH [OF run] show ?case by simp
qed

lemma search_chunks_error:
  "search_chunks qw name cs rs = Inl e \<Longrightarrow> \<exists>w \<in> set qw. \<exists>c \<in> set w. syntax_char c"
  by (induction cs arbitrary: rs)
     (auto simp: Let_def split: sum.splits if_splits dest: calculateRelevance_error)

lemma search_chunks_plain:
  "\<forall>w \<in> set qw. plain_word w \<Longrightarrow> \<exists>rs'. search_chunks qw name cs rs = Inr rs'"
proof (induction cs arbitrary: rs)
  case Nil
  then show ?case by simp
next
  case (Cons c cs)
  from calculateRelevance_plain [OF Cons.prems] obtain n
    where "calculateRelevance (toLowerCase c) qw = Inr n" by blast
  with Cons.IH [OF Cons.prems] show ?case by (simp add: Let_def)
qed

lemma search_docs_result:
  "search_docs qw ds rs = Inr rs' \<Longrightarrow> rs' = rs @ hits qw ds"
proof (induction ds arbitrary: rs)
  case Nil
  then show ?case by (simp add: hits_def)
next
  case (Cons d ds)
  from Cons.prems obtain rs1 where one: "search_chunks qw (fileName d) (chunks d) rs = Inr rs1"
    and run: "search_docs qw ds rs1 = Inr rs'"
    by (auto split: sum.splits)
  from Cons.IH [OF run] search_chunks_result [OF one] show ?case by (simp add: hits_def)
qed

lemma search_docs_error:
  "search_docs qw ds rs = Inl e \<Longrightarrow> \<exists>w \<in> set qw. \<exists>c \<in> set w. syntax_char c"
  by (induction ds arbitrary: rs) (auto split: sum.splits dest: search_chunks_error)

lemma search_docs_plain:
  "\<forall>w \<in> set qw. plain_word w \<Longrightarrow> \<exists>rs'. search_docs qw ds rs = Inr rs'"
proof (induction ds arbitrary: rs)
  case Nil
  then show ?case by simp
next
  case (Cons d ds)
  from search_chunks_plain [OF Cons.prems] obtain rs1
    where "search_chunks qw (fileName d) (chunks d) rs = Inr rs1" by blast
  with Cons.IH [OF Cons.prems] show ?case by simp
qed

lemma hits_Nil: "hits qw [] = []"
  by (simp add: hits_def)

lemma searchDocuments_result:
  assumes "searchDocuments st u q = Inr rs"
  shows "rs = take 10 (sort_key (\<lambda>r. - score r) (hits (queryWords_of q) (getDocuments st u)))"
proof (cases "getDocuments st u = []")
  case True
  with assms show ?thesis by (simp add: searchDocuments_def getDocuments_def hits_Nil)
next
  case False
  with assms obtain found where f: "search_docs (queryWords_of q) (getDocuments st u) [] = Inr found"
    and rs: "rs = take 10 (array_sort (\<lambda>a b. score b - score a) found)"
    by (auto simp: searchDocuments_def getDocuments_def split: sum.splits)
  from search_docs_result [OF f] rs show ?thesis by (simp add: array_sort_sort_key)
qed

lemma searchDocuments_error:
  assumes "searchDocuments st u q = Inl e"
  shows "\<exists>w \<in> set (queryWords_of q). \<exists>c \<in> set w. syntax_char c"
  using assms
  by (auto simp: searchDocuments_def Let_def split: if_splits sum.splits dest: search_docs_error)

lemma searchDocuments_plain:
  assumes "\<forall>w \<in> set (queryWords_of q). plain_word w"
  shows "\<exists>rs. searchDocuments st u q = Inr rs"
  using search_docs_plain [OF assms]
  by (auto simp: searchDocuments_def Let_def split: sum.splits) (metis Inl_Inr_False)

lemma hits_positive: "r \<in> set (hits qw docs) \<Longrightarrow> 0 < score r"
  by (auto simp: hits_def scored_def split: sum.splits if_splits)

lemma hits_origin:
  "r \<in> set (hits qw docs) \<Longrightarrow>
   \<exists>d \<in> set docs. fileName r = fileName d \<and> chunk r \<in> set (chunks d) \<and>
      calculateRelevance (toLowerCase (chunk r)) qw = Inr (score r)"
  by (auto simp: hits_def scored_def split: sum.splits if_splits)

lemma ranked_properties:
  assumes "rs = take 10 (sort_key (\<lambda>r. - score r) hs)"
  shows "sorted_wrt (\<lambda>a b. score b \<le> score a) rs"
    and "length rs = min 10 (length hs)"
    and "prefix (filter (\<lambda>r. score r = k) rs) (filter (\<lambda>r. score r = k) hs)"
    and "set rs \<subseteq> set hs"
proof -
  let ?s = "sort_key (\<lambda>r. - score r) hs"
  have "sorted (map (\<lambda>r. - score r) ?s)" by (rule sorted_sort_key)
  then have "sorted_wrt (\<lambda>a b. score b \<le> score a) ?s"
    by (simp add: sorted_map)
  then show "sorted_wrt (\<lambda>a b. score b \<le> score a) rs"
    unfolding assms by (rule sorted_wrt_take)
  show "length rs = min 10 (length hs)" by (simp add: assms)
  have "filter (\<lambda>r. - score r = - k) ?s = filter (\<lambda>r. - score r = - k) hs"
    by (rule sort_key_stable)
  then have "filter (\<lambda>r. score r = k) ?s = filter (\<lambda>r. score r = k) hs" by simp
  moreover have "prefix (filter (\<lambda>r. score r = k) rs) (filter (\<lambda>r. score r = k) ?s)"
    unfolding assms by (intro filter_mono_prefix take_is_prefix)
  ultimately show "prefix (filter (\<lambda>r. score r = k) rs) (filter (\<lambda>r. score r = k) hs)" by simp
  show "set rs \<subseteq> set hs" using set_take_subset [of 10 ?s] by (simp add: assms)
qed

text \<open>
  Whenever \<open>searchDocuments\<close> returns, its result is the first 10 elements of the
  stable descending sort of the chunks of positive score: every result has a score above
  0, which is the relevance of its chunk, a chunk of a document of the user; the results
  are in descending order of score; for every score, the results of that score are the
  first ones of that score in encounter order; and there are 10 results when more than 10
  chunks score above 0. The search returns for every query whose words hold no character
  with a meaning in a regular expression; when it raises instead, some query word holds
  such a character.
\<close>

lemma searchDocuments_ranking:
  "(case searchDocuments st u q of
      Inl e \<Rightarrow> \<exists>w \<in> set (queryWords_of q). \<exists>c \<in> set w. syntax_char c
    | Inr rs \<Rightarrow>
        rs = take 10 (sort_key (\<lambda>r. - score r) (hits (queryWords_of q) (getDocuments st u))) \<and>
        (\<forall>r \<in> set rs. 0 < score r \<and>
           (\<exists>d \<in> set (getDocuments st u). fileName r = fileName d \<and> chunk r \<in> set (chunks d) \<and>
              calculateRelevance (toLowerCase (chunk r)) (queryWords_of q) = Inr (score r))) \<and>
        sorted_wrt (\<lambda>a b. score b \<le> score a) rs \<and>
        (\<forall>k. prefix (filter (\<lambda>r. score r = k) rs)
               (filter (\<lambda>r. score r = k) (hits (queryWords_of q) (getDocuments st u)))) \<and>
        length rs = min 10 (length (hits (queryWords_of q) (getDocuments st u))) \<and>
        length rs \<le> 10) \<and>
   ((\<forall>w \<in> set (queryWords_of q). plain_word w) \<longrightarrow> (\<exists>rs. searchDocuments st u q = Inr rs))"
proof -
  let ?hs = "hits (queryWords_of q) (getDocuments st u)"
  have ok: "rs = take 10 (sort_key (\<lambda>r. - score r) ?hs) \<and>
        (\<forall>r \<in> set rs. 0 < score r \<and>
           (\<exists>d \<in> set (getDocuments st u). fileName r = fileName d \<and> chunk r \<in> set (chunks d) \<and>
              calculateRelevance (toLowerCase (chunk r)) (queryWords_of q) = Inr (score r))) \<and>
        sorted_wrt (\<lambda>a b. score b \<le> score a) rs \<and>
        (\<forall>k. prefix (filter (\<lambda>r. score r = k) rs) (filter (\<lambda>r. score r = k) ?hs)) \<and>
        length rs = min 10 (length ?hs) \<and>
        length rs \<le> 10"
    if "searchDocuments st u q = Inr rs" for rs
  proof -
    note rs = searchDocuments_result [OF that]
    note p = ranked_properties [OF rs]
    from p(4) have "\<forall>r \<in> set rs. r \<in> set ?hs" by blast
    then have "\<forall>r \<in> set rs. 0 < score r \<and>
           (\<exists>d \<in> set (getDocuments st u). fileName r = fileName d \<and> chunk r \<in> set (chunks d) \<and>
              calculateRelevance (toLowerCase (chunk r)) (queryWords_of q) = Inr (score r))"
      using hits_positive hits_origin by blast
    with rs p(1,2,3) show ?thesis by simp
  qed
  have "case searchDocuments st u q of
      Inl e \<Rightarrow> \<exists>w \<in> set (queryWords_of q). \<exists>c \<in> set w. syntax_char c
    | Inr rs \<Rightarrow>
        rs = take 10 (sort_key (\<lambda>r. - score r) ?hs) \<and>
        (\<forall>r \<in> set rs. 0 < score r \<and>
           (\<exists>d \<in> set (getDocuments st u). fileName r = fileName d \<and> chunk r \<in> set (chunks d) \<and>
              calculateRelevance (toLowerCase (chunk r)) (queryWords_of q) = Inr (score r))) \<and>
        sorted_wrt (\<lambda>a b. score b \<le> score a) rs \<and>
        (\<forall>k. prefix (filter (\<lambda>r. score r = k) rs) (filter (\<lambda>r. score r = k) ?hs)) \<and>
        length rs = min 10 (length ?hs) \<and>
        length rs \<le> 10"
    using ok searchDocuments_error [of st u q]
    by (cases "searchDocuments st u q") simp_all
  then show ?thesis
    using searchDocuments_plain [of q st u] by blast
qed

text \<open>
  At \<open>example_store\<close> and the query \<open>Abc XYZ\<close> twelve chunks score above 0, in
  encounter order 5, 5, 2, 8 and eight times 1, and the search returns ten of them.
\<close>

lemma searchDocuments_ranking_example:
  "list_all plain_word (queryWords_of ''Abc XYZ'') \<and>
   map score (hits (queryWords_of ''Abc XYZ'') (getDocuments example_store 1)) =
     [5, 5, 2, 8, 1, 1, 1, 1, 1, 1, 1, 1] \<and>
   (\<exists>rs. searchDocuments example_store 1 ''Abc XYZ'' = Inr rs \<and>
      map score rs = [8, 5, 5, 2, 1, 1, 1, 1, 1, 1] \<and>
      map chunk rs =
        [''abc xyz abc xyz'', ''xyz xyz abc abc abc'', ''xyz abc abc abc abc'', ''xyz abc'',
         ''abc 1'', ''abc 2'', ''abc 3'', ''abc 4'', ''abc 5'', ''abc 6''] \<and>
      sorted_wrt (\<lambda>a b. score b \<le> score a) rs \<and>
      length rs = min 10 (length (hits (queryWords_of ''Abc XYZ'') (getDocuments example_store 1))))"
proof -
  let ?rs = "[\<lparr>fileName = ''a.pdf'', chunk = ''abc xyz abc xyz'', score = 8\<rparr>,
      \<lparr>fileName = ''a.pdf'', chunk = ''xyz xyz abc abc abc'', score = 5\<rparr>,
      \<lparr>fileName = ''a.pdf'', chunk = ''xyz abc abc abc abc'', score = 5\<rparr>,
      \<lparr>fileName = ''a.pdf'', chunk = ''xyz abc'', score = 2\<rparr>,
      \<lparr>fileName = ''b.pdf'', chunk = ''abc 1'', score = 1\<rparr>,
      \<lparr>fileName = ''b.pdf'', chunk = ''abc 2'', score = 1\<rparr>,
      \<lparr>fileName = ''b.pdf'', chunk = ''abc 3'', score = 1\<rparr>,
      \<lparr>fileName = ''b.pdf'', chunk = ''abc 4'', score = 1\<rparr>,
      \<lparr>fileName = ''b.pdf'', chunk = ''abc 5'', score = 1\<rparr>,
      \<lparr>fileName = ''b.pdf'', chunk = ''abc 6'', score = 1\<rparr>]"
  have ev: "searchDocuments example_store 1 ''Abc XYZ'' = Inr ?rs"
    by code_simp
  have hs: "map score (hits (queryWords_of ''Abc XYZ'') (getDocuments example_store 1)) =
     [5, 5, 2, 8, 1, 1, 1, 1, 1, 1, 1, 1]"
    by code_simp
  have pl: "list_all plain_word (queryWords_of ''Abc XYZ'')"
    by code_simp
  note inst = searchDocuments_ranking [where st = example_store and u = 1 and q = "''Abc XYZ''"]
  have th: "sorted_wrt (\<lambda>a b. score b \<le> score a) ?rs \<and>
      length ?rs = min 10 (length (hits (queryWords_of ''Abc XYZ'') (getDocuments example_store 1)))"
    using inst unfolding ev sum.case by blast
  show ?thesis
    using ev hs pl th by (intro conjI exI [of _ ?rs]) simp_all
qed

text \<open>
  The search raises exactly when some document of the user has a chunk and some scoring
  word of the query is no well-formed pattern.
\<close>

lemma count_words_raises:
  "(\<exists>e. count_words t ws s = Inl e) \<longleftrightarrow> (\<exists>w \<in> set ws. \<not> well_formed w)"
  by (induction ws arbitrary: s) (auto simp: well_formed_def split: sum.splits)

lemma calculateRelevance_raises:
  "(\<exists>e. calculateRelevance t ws = Inl e) \<longleftrightarrow> (\<exists>w \<in> set ws. \<not> well_formed w)"
  using count_words_raises [of t ws 0]
  by (auto simp: calculateRelevance_def split: sum.splits)

lemma search_chunks_raises:
  "(\<exists>e. search_chunks qw name cs rs = Inl e) \<longleftrightarrow> cs \<noteq> [] \<and> (\<exists>w \<in> set qw. \<not> well_formed w)"
proof (induction cs arbitrary: rs)
  case Nil
  then show ?case by simp
next
  case (Cons c cs)
  show ?case
  proof (cases "\<exists>w \<in> set qw. \<not> well_formed w")
    case True
    with calculateRelevance_raises [of "toLowerCase c" qw] obtain e
      where "calculateRelevance (toLowerCase c) qw = Inl e" by blast
    with True show ?thesis by (simp add: Let_def)
  next
    case False
    with calculateRelevance_raises [of "toLowerCase c" qw] obtain n
      where "calculateRelevance (toLowerCase c) qw = Inr n"
      by (cases "calculateRelevance (toLowerCase c) qw") auto
    with False Cons.IH show ?thesis by (simp add: Let_def)
  qed
qed

lemma search_docs_raises:
  "(\<exists>e. search_docs qw ds rs = Inl e) \<longleftrightarrow>
   (\<exists>d \<in> set ds. chunks d \<noteq> []) \<and> (\<exists>w \<in> set qw. \<not> well_formed w)"
proof (induction ds arbitrary: rs)
  case Nil
  then show ?case by simp
next
  case (Cons d ds)
  show ?case
  proof (cases "search_chunks qw (fileName d) (chunks d) rs")
    case (Inl e)
    with search_chunks_raises [of qw "fileName d" "chunks d" rs] show ?thesis by auto
  next
    case (Inr rs')
    with search_chunks_raises [of qw "fileName d" "chunks d" rs]
    have "chunks d = [] \<or> \<not> (\<exists>w \<in> set qw. \<not> well_formed w)" by auto
    with Inr Cons.IH [of rs'] show ?thesis by auto
  qed
qed

lemma searchDocuments_error_iff:
  "searchDocuments st u q = Inl SyntaxError \<longleftrightarrow>
   (\<exists>d \<in> set (getDocuments st u). chunks d \<noteq> []) \<and>
   (\<exists>w \<in> set (queryWords_of q). \<not> well_formed w)"
proof -
  have one: "(\<exists>e. x = Inl e) \<longleftrightarrow> x = Inl SyntaxError" for x :: "js_error + 'z"
    by (metis js_error.exhaust)
  show ?thesis
  proof (cases "getDocuments st u = []")
    case True
    then show ?thesis by (simp add: searchDocuments_def getDocuments_def)
  next
    case False
    have "searchDocuments st u q = Inl SyntaxError \<longleftrightarrow>
        (\<exists>e. search_docs (queryWords_of q) (getDocuments st u) [] = Inl e)"
      using False
      by (auto simp: searchDocuments_def getDocuments_def one split: sum.splits)
    then show ?thesis by (simp only: search_docs_raises)
  qed
qed

text \<open>
  Claim C1 fails on the code: the search raises for a query with a word that is no
  well-formed pattern, since \<open>calculateRelevance\<close> hands every query word to
  \<open>new RegExp\<close> as it is and neither method catches the error. The user 1 of \<open>example_store\<close>
  has two documents, and the only scoring word of the query \<open>???\<close> is \<open>???\<close>, a quantifier
  with nothing to repeat; the query \<open>What is C++\<close> has the scoring words \<open>what\<close> and
  \<open>c++\<close>, and \<open>c++\<close> repeats a quantifier. For both queries the search returns no
  results but raises \<open>SyntaxError\<close>.
\<close>

theorem searchDocuments_raises:
  "getDocumentCount example_store 1 = 2 \<and>
   queryWords_of ''???'' = [''???''] \<and>
   searchDocuments example_store 1 ''???'' = Inl SyntaxError \<and>
   queryWords_of ''What is C++'' = [''what'', ''c++''] \<and>
   searchDocuments example_store 1 ''What is C++'' = Inl SyntaxError"
  by code_simp

section \<open>The relevance score\<close>

lemma toLowerCase_char_idem: "toLowerCase_char (toLowerCase_char c) = toLowerCase_char c"
  by (simp add: toLowerCase_char_def Let_def)

lemma toLowerCase_idem: "toLowerCase (toLowerCase s) = toLowerCase s"
  by (simp add: toLowerCase_def toLowerCase_char_idem)

lemma occurrences_toLowerCase: "occurrences w (toLowerCase t) = occurrences w t"
proof (induction w t rule: occurrences.induct)
  case (1 word)
  then show ?case by (simp add: toLowerCase_def)
next
  case (2 word c cs)
  have step: "toLowerCase (c # cs) = toLowerCase_char c # toLowerCase cs"
    by (simp add: toLowerCase_def)
  have dr: "drop n (toLowerCase cs) = toLowerCase (drop n cs)" for n
    by (simp add: toLowerCase_def drop_map)
  have idem: "toLowerCase (toLowerCase_char c # toLowerCase cs) =
      toLowerCase_char c # toLowerCase cs"
    using toLowerCase_idem [of "c # cs"] by (simp only: step)
  have lhs: "occurrences word (toLowerCase (c # cs)) =
     (if word \<noteq> [] \<and> prefix (toLowerCase word) (toLowerCase (c # cs))
      then Suc (occurrences word (toLowerCase (drop (length word - 1) cs)))
      else occurrences word (toLowerCase cs))"
    by (simp only: step occurrences.simps idem dr)
  show ?case
  proof (cases "word \<noteq> [] \<and> prefix (toLowerCase word) (toLowerCase (c # cs))")
    case True
    from 2(1) [OF True] True show ?thesis unfolding lhs by simp
  next
    case False
    from 2(2) [OF False] False show ?thesis unfolding lhs by auto
  qed
qed

lemma string_includes_sublist: "string_includes t p \<longleftrightarrow> sublist p t"
  by (induction t) (simp_all add: sublist_Cons_right)

lemma count_words_plain_sum:
  "\<forall>w \<in> set ws. plain_word w \<and> w \<noteq> [] \<Longrightarrow>
   count_words t ws s = Inr (s + sum_list (map (\<lambda>w. int (occurrences w t)) ws))"
  by (induction ws arbitrary: s) (simp_all add: RegExp_gi_plain count_matches_plain)

lemma calculateRelevance_plain_words:
  assumes "\<forall>w \<in> set ws. plain_word w \<and> w \<noteq> []"
  shows "calculateRelevance (toLowerCase c) ws = Inr (spec_relevance c ws)"
  by (simp add: calculateRelevance_def count_words_plain_sum [OF assms] spec_relevance_def
      string_includes_sublist occurrences_toLowerCase)

text \<open>
  The example of the specification: for the query \<open>annual report\<close>, a chunk with the phrase
  once and each of the two words once more scores 8.
\<close>

lemma annual_report_example:
  "queryWords_of ''annual report'' = [''annual'', ''report''] \<and>
   calculateRelevance (toLowerCase ''Annual report. The annual summary and a Report'')
     (queryWords_of ''annual report'') = Inr 8"
  by code_simp

text \<open>
  Query words with syntax characters: \<open>abc?\<close> matches \<open>ab\<close> and \<open>abc\<close>, \<open>abc|xyz\<close>
  matches either word, and \<open>c++\<close>, \<open>(see\<close> and \<open>[1\<close> are no patterns.
\<close>

lemma pattern_word_examples:
  "calculateRelevance (toLowerCase ''What is the abc? ab'') [''abc?''] = Inr 4 \<and>
   calculateRelevance (toLowerCase ''abc xyz'') [''abc|xyz''] = Inr 2 \<and>
   calculateRelevance (toLowerCase ''C++ code'') [''c++''] = Inl SyntaxError \<and>
   calculateRelevance (toLowerCase ''(see below)'') [''(see''] = Inl SyntaxError \<and>
   calculateRelevance (toLowerCase ''item [1'') [''[1''] = Inl SyntaxError"
  by code_simp

text \<open>
  Claim C2 fails on the code for a query word that holds a character with a meaning in a
  regular expression, since the word is handed to \<open>new RegExp\<close> as it is. For the word
  \<open>3.5\<close> the chunk \<open>Call 325 now\<close> scores 1, though the word does not occur in it; the
  word \<open>???\<close> makes the constructor raise. For words without such characters the score is
  the one of the claim (\<open>calculateRelevance_plain_words\<close>).
\<close>

theorem relevance_word_as_pattern:
  "calculateRelevance (toLowerCase ''Call 325 now'') [''3.5''] = Inr 1 \<and>
   spec_relevance ''Call 325 now'' [''3.5''] = 0 \<and>
   calculateRelevance (toLowerCase ''Call 325 now'') [''???''] = Inl SyntaxError"
  by code_simp

end
